theory Spec2Isabelle
  imports Main "HOL-Library.Word"
begin

section \<open>Strings and characters\<close>

text \<open>
  A JavaScript string is modelled as a \<^typ>\<open>string\<close>: a list of code units, each
  below 256 (the Latin-1 range). Among these the white space of \<^verbatim>\<open>\s\<close> and of
  \<^verbatim>\<open>trim()\<close> is TAB, LF, VT, FF, CR, SP and NBSP, and the line terminators
  (which \<^verbatim>\<open>.\<close> does not match) are LF and CR.
\<close>

definition isSpace :: "char \<Rightarrow> bool" where
  "isSpace c = (of_char c \<in> set [9, 10, 11, 12, 13, 32, 160 :: nat])"

definition isLineTerminator :: "char \<Rightarrow> bool" where
  "isLineTerminator c = (of_char c \<in> set [10, 13 :: nat])"

definition isHexLower :: "char \<Rightarrow> bool" where
  "isHexLower c = (c \<in> set ''0123456789abcdef'')"

definition isHexUpper :: "char \<Rightarrow> bool" where
  "isHexUpper c = (c \<in> set ''ABCDEF'')"

definition toUpper :: "char \<Rightarrow> char" where
  "toUpper c = (let n = (of_char c :: nat) in
     if 97 \<le> n \<and> n \<le> 122 then char_of (n - 32) else c)"

definition toLower :: "char \<Rightarrow> char" where
  "toLower c = (let n = (of_char c :: nat) in
     if (65 \<le> n \<and> n \<le> 90) \<or> (192 \<le> n \<and> n \<le> 222 \<and> n \<noteq> 215)
     then char_of (n + 32) else c)"

definition toLowerCase :: "string \<Rightarrow> string" where
  "toLowerCase s = map toLower s"

definition trim :: "string \<Rightarrow> string" where
  "trim s = rev (dropWhile isSpace (rev (dropWhile isSpace s)))"

definition startsWith :: "string \<Rightarrow> string \<Rightarrow> bool" where
  "startsWith s p = (take (length p) s = p)"

fun split_on :: "(char \<Rightarrow> bool) \<Rightarrow> string \<Rightarrow> string \<Rightarrow> string list" where
  "split_on sep acc [] = [rev acc]"
| "split_on sep acc (c # cs) =
     (if sep c then rev acc # split_on sep [] cs else split_on sep (c # acc) cs)"

definition split_lines :: "string \<Rightarrow> string list" where
  "split_lines content = split_on (\<lambda>c. of_char c = (10::nat)) [] content"

text \<open>\<^verbatim>\<open>filename.split(/[\/\\]/).pop()\<close>: the segment after the last slash or backslash.\<close>

definition last_segment :: "string \<Rightarrow> string" where
  "last_segment filename =
     last (split_on (\<lambda>c. c = CHR ''/'' \<or> of_char c = (92::nat)) [] filename)"

section \<open>Regular expressions\<close>

text \<open>
  The patterns of the source are sequences of anchors, character classes under a greedy
  quantifier, an alternation of literal words and capture parentheses. The matcher
  backtracks in the order of the ECMAScript one: a quantifier first takes as many
  characters as it can and gives them back one at a time; alternatives are tried from
  left to right. The flag \<open>ic\<close> is \<^verbatim>\<open>i\<close> (ignore case) and \<open>ml\<close> is \<^verbatim>\<open>m\<close>
  (multiline anchors).
\<close>

datatype cls =
    Hex            \<comment> \<open>\<^verbatim>\<open>[0-9a-f]\<close>\<close>
  | Space          \<comment> \<open>\<^verbatim>\<open>\s\<close>\<close>
  | NotSpace       \<comment> \<open>\<^verbatim>\<open>[^\s]\<close>\<close>
  | Dot            \<comment> \<open>\<^verbatim>\<open>.\<close>\<close>
  | StarOrSpace    \<comment> \<open>\<^verbatim>\<open>[\*\s]\<close>\<close>
  | NotRParen      \<comment> \<open>\<^verbatim>\<open>[^)]\<close>\<close>
  | Ch char        \<comment> \<open>a literal character\<close>

datatype item =
    Bol                          \<comment> \<open>\<^verbatim>\<open>^\<close>\<close>
  | Eol                          \<comment> \<open>\<^verbatim>\<open>$\<close>\<close>
  | Rep cls nat "nat option"     \<comment> \<open>class\<^verbatim>\<open>{lo,hi}\<close>, greedy; no upper bound when \<open>None\<close>\<close>
  | Alt "string list"            \<comment> \<open>\<^verbatim>\<open>(?:w1|w2|...)\<close>\<close>
  | Open                         \<comment> \<open>\<^verbatim>\<open>(\<close>\<close>
  | Close                        \<comment> \<open>\<^verbatim>\<open>)\<close>\<close>

abbreviation One :: "cls \<Rightarrow> item" where "One c \<equiv> Rep c 1 (Some 1)"
abbreviation Opt :: "cls \<Rightarrow> item" where "Opt c \<equiv> Rep c 0 (Some 1)"
abbreviation Star :: "cls \<Rightarrow> item" where "Star c \<equiv> Rep c 0 None"
abbreviation Plus :: "cls \<Rightarrow> item" where "Plus c \<equiv> Rep c 1 None"

fun cls_match :: "bool \<Rightarrow> cls \<Rightarrow> char \<Rightarrow> bool" where
  "cls_match ic Hex c = (isHexLower c \<or> (ic \<and> isHexUpper c))"
| "cls_match ic Space c = isSpace c"
| "cls_match ic NotSpace c = (\<not> isSpace c)"
| "cls_match ic Dot c = (\<not> isLineTerminator c)"
| "cls_match ic StarOrSpace c = (c = CHR ''*'' \<or> isSpace c)"
| "cls_match ic NotRParen c = (c \<noteq> CHR '')'')"
| "cls_match ic (Ch x) c = (if ic then toUpper c = toUpper x else c = x)"

definition below :: "nat \<Rightarrow> nat option \<Rightarrow> bool" where
  "below n hi = (case hi of None \<Rightarrow> True | Some h \<Rightarrow> n < h)"

definition at_bol :: "bool \<Rightarrow> char option \<Rightarrow> bool" where
  "at_bol ml prev = (case prev of None \<Rightarrow> True | Some p \<Rightarrow> ml \<and> isLineTerminator p)"

definition at_eol :: "bool \<Rightarrow> string \<Rightarrow> bool" where
  "at_eol ml s = (case s of [] \<Rightarrow> True | c # _ \<Rightarrow> ml \<and> isLineTerminator c)"

definition strip_word :: "bool \<Rightarrow> string \<Rightarrow> string \<Rightarrow> string option" where
  "strip_word ic w s =
     (if length w \<le> length s \<and>
         (if ic then map toUpper (take (length w) s) = map toUpper w
          else take (length w) s = w)
      then Some (drop (length w) s) else None)"

fun item_weight :: "item \<Rightarrow> nat" where
  "item_weight (Alt ws) = Suc (length ws)"
| "item_weight _ = 1"

text \<open>
  \<open>mt ic ml items n prev s opens caps\<close> matches \<open>items\<close> at the start of \<open>s\<close>;
  \<open>prev\<close> is the character before \<open>s\<close>, \<open>n\<close> the number of characters the
  quantifier at the head has taken, \<open>opens\<close> the input at each open parenthesis and
  \<open>caps\<close> the captured groups so far. The result is the list of captured groups.
\<close>

function (sequential) mt :: "bool \<Rightarrow> bool \<Rightarrow> item list \<Rightarrow> nat \<Rightarrow> char option \<Rightarrow> string
             \<Rightarrow> string list \<Rightarrow> string list \<Rightarrow> string list option" where
  "mt ic ml [] n prev s opens caps = Some caps"
| "mt ic ml (Bol # r) n prev s opens caps =
     (if at_bol ml prev then mt ic ml r 0 prev s opens caps else None)"
| "mt ic ml (Eol # r) n prev s opens caps =
     (if at_eol ml s then mt ic ml r 0 prev s opens caps else None)"
| "mt ic ml (Open # r) n prev s opens caps = mt ic ml r 0 prev s (s # opens) caps"
| "mt ic ml (Close # r) n prev s [] caps = None"
| "mt ic ml (Close # r) n prev s (s0 # opens) caps =
     mt ic ml r 0 prev s opens (caps @ [take (length s0 - length s) s0])"
| "mt ic ml (Alt [] # r) n prev s opens caps = None"
| "mt ic ml (Alt (w # ws) # r) n prev s opens caps =
     (case strip_word ic w s of
        None \<Rightarrow> mt ic ml (Alt ws # r) n prev s opens caps
      | Some s' \<Rightarrow>
          (case mt ic ml r 0 (if w = [] then prev else Some (last (take (length w) s))) s'
                  opens caps of
             Some res \<Rightarrow> Some res
           | None \<Rightarrow> mt ic ml (Alt ws # r) n prev s opens caps))"
| "mt ic ml (Rep c lo hi # r) n prev [] opens caps =
     (if lo \<le> n then mt ic ml r 0 prev [] opens caps else None)"
| "mt ic ml (Rep c lo hi # r) n prev (x # xs) opens caps =
     (if below n hi \<and> cls_match ic c x
      then (case mt ic ml (Rep c lo hi # r) (Suc n) (Some x) xs opens caps of
              Some res \<Rightarrow> Some res
            | None \<Rightarrow> if lo \<le> n then mt ic ml r 0 prev (x # xs) opens caps else None)
      else if lo \<le> n then mt ic ml r 0 prev (x # xs) opens caps else None)"
  by pat_completeness auto
termination
  by (relation "measures [\<lambda>(ic, ml, items, n, prev, s, opens, caps). sum_list (map item_weight items),
                          \<lambda>(ic, ml, items, n, prev, s, opens, caps). length s]") auto

text \<open>
  \<^verbatim>\<open>exec\<close> from index 0 of a regular expression that is not sticky: the first
  position, from the left, at which the pattern matches.
\<close>

fun exec_from :: "bool \<Rightarrow> bool \<Rightarrow> item list \<Rightarrow> char option \<Rightarrow> string \<Rightarrow> string list option" where
  "exec_from ic ml items prev [] = mt ic ml items 0 prev [] [] []"
| "exec_from ic ml items prev (x # xs) =
     (case mt ic ml items 0 prev (x # xs) [] [] of
        Some caps \<Rightarrow> Some caps
      | None \<Rightarrow> exec_from ic ml items (Some x) xs)"

definition match :: "bool \<Rightarrow> bool \<Rightarrow> item list \<Rightarrow> string \<Rightarrow> string list option" where
  "match ic ml items s = exec_from ic ml items None s"

definition test :: "bool \<Rightarrow> bool \<Rightarrow> item list \<Rightarrow> string \<Rightarrow> bool" where
  "test ic ml items s = (match ic ml items s \<noteq> None)"

section \<open>Objects\<close>

text \<open>
  An object whose properties are set by \<^verbatim>\<open>obj[key] = value\<close> is the list of its
  own properties in the order \<^verbatim>\<open>Object.keys\<close>, \<^verbatim>\<open>Object.values\<close> and
  \<^verbatim>\<open>Object.entries\<close> enumerate them: the keys that are array indices first, in
  ascending numeric order, then the other keys in the order they were first set.
\<close>

type_synonym jsobject = "(string \<times> string) list"

text \<open>
  Such an object is created by \<^verbatim>\<open>{}\<close>, so it inherits the members of
  \<^verbatim>\<open>Object.prototype\<close>: eleven methods and the accessor \<^verbatim>\<open>__proto__\<close>. A
  property read gives the own property when there is one, else the inherited member (a
  function, or for \<^verbatim>\<open>__proto__\<close> the prototype object), else \<^verbatim>\<open>undefined\<close>.
\<close>

definition objectPrototype :: "string list" where
  "objectPrototype =
     [''constructor'', ''__defineGetter__'', ''__defineSetter__'', ''hasOwnProperty'',
      ''__lookupGetter__'', ''__lookupSetter__'', ''isPrototypeOf'',
      ''propertyIsEnumerable'', ''toString'', ''valueOf'', ''__proto__'',
      ''toLocaleString'']"

datatype jsvalue =
    Undefined
  | Str string
  | Member       \<comment> \<open>a function or object inherited from \<^verbatim>\<open>Object.prototype\<close>\<close>

definition truthy :: "jsvalue \<Rightarrow> bool" where
  "truthy v = (case v of Undefined \<Rightarrow> False | Str s \<Rightarrow> s \<noteq> [] | Member \<Rightarrow> True)"

text \<open>What the checksum module throws.\<close>

datatype error =
    StoppedByUser       \<comment> \<open>\<^verbatim>\<open>Checksum calculation stopped by user\<close>\<close>
  | LibraryNotLoaded    \<comment> \<open>\<^verbatim>\<open>SHA-256 library not loaded. Please refresh the page.\<close>\<close>
  | HasherFailed        \<comment> \<open>a hasher could not be created\<close>
  | TypeError           \<comment> \<open>\<^verbatim>\<open>length\<close> read of \<^verbatim>\<open>undefined\<close>, or a call of a string\<close>

definition isDigit :: "char \<Rightarrow> bool" where
  "isDigit c = (c \<in> set ''0123456789'')"

definition dec_value :: "string \<Rightarrow> int" where
  "dec_value k = foldl (\<lambda>a c. 10 * a + (of_char c - 48)) 0 k"

definition isArrayIndex :: "string \<Rightarrow> bool" where
  "isArrayIndex k =
     (k \<noteq> [] \<and> list_all isDigit k \<and> (k = ''0'' \<or> hd k \<noteq> CHR ''0'')
      \<and> dec_value k < 4294967295)"

fun insert_index :: "string \<Rightarrow> string \<Rightarrow> jsobject \<Rightarrow> jsobject" where
  "insert_index k v [] = [(k, v)]"
| "insert_index k v ((k', v') # ps) =
     (if isArrayIndex k' \<and> dec_value k' < dec_value k
      then (k', v') # insert_index k v ps
      else (k, v) # (k', v') # ps)"

fun replace_value :: "string \<Rightarrow> string \<Rightarrow> jsobject \<Rightarrow> jsobject" where
  "replace_value k v [] = []"
| "replace_value k v ((k', v') # ps) =
     (if k' = k then (k, v) # ps else (k', v') # replace_value k v ps)"

definition own :: "jsobject \<Rightarrow> string \<Rightarrow> bool" where
  "own obj k = (k \<in> set (map fst obj))"

text \<open>
  \<^verbatim>\<open>obj[k] = v\<close>. With no own property \<^verbatim>\<open>__proto__\<close> the assignment runs the
  inherited setter, which ignores a string: the object stays as it is. The other
  inherited members are writable data properties, so the assignment makes an own property.
\<close>

definition obj_set :: "jsobject \<Rightarrow> string \<Rightarrow> string \<Rightarrow> jsobject" where
  "obj_set obj k v =
     (if own obj k then replace_value k v obj
      else if k = ''__proto__'' then obj
      else if isArrayIndex k then insert_index k v obj
      else obj @ [(k, v)])"

text \<open>\<^verbatim>\<open>obj[k]\<close>.\<close>

definition obj_get :: "jsobject \<Rightarrow> string \<Rightarrow> jsvalue" where
  "obj_get obj k =
     (case map_of obj k of
        Some v \<Rightarrow> Str v
      | None \<Rightarrow> if k \<in> set objectPrototype then Member else Undefined)"

text \<open>
  \<^verbatim>\<open>obj.hasOwnProperty(k)\<close>: the property \<^verbatim>\<open>hasOwnProperty\<close> is read and
  called. An own property of that name is a string, and calling it throws.
\<close>

definition hasOwnProperty :: "jsobject \<Rightarrow> string \<Rightarrow> error + bool" where
  "hasOwnProperty obj k =
     (case obj_get obj ''hasOwnProperty'' of
        Str v \<Rightarrow> Inl TypeError
      | _ \<Rightarrow> Inr (own obj k))"

section \<open>Checksum manifest parser (checksum-addon.js)\<close>

text \<open>
  \<^verbatim>\<open>/^([0-9a-f]{32,128})\s+([^\s].+)$/gm\<close> and
  \<^verbatim>\<open>/^(?:SHA256|SHA512|SHA1|MD5)\s*\([^)]+\)\s*=\s*([0-9a-f]{32,128})/gim\<close>.
  Each is a fresh literal whose \<^verbatim>\<open>lastIndex\<close> is 0, so \<^verbatim>\<open>test\<close> searches the
  whole content.
\<close>

definition standardPattern :: "item list" where
  "standardPattern =
     [Bol, Open, Rep Hex 32 (Some 128), Close, Plus Space,
      Open, One NotSpace, Plus Dot, Close, Eol]"

definition algoNames :: "string list" where
  "algoNames = [''SHA256'', ''SHA512'', ''SHA1'', ''MD5'']"

definition bsdPattern :: "item list" where
  "bsdPattern =
     [Bol, Alt algoNames, Star Space, One (Ch (CHR ''('')), Plus NotRParen,
      One (Ch (CHR '')'')), Star Space, One (Ch (CHR ''='')), Star Space,
      Open, Rep Hex 32 (Some 128), Close]"

definition containsChecksums :: "string \<Rightarrow> bool" where
  "containsChecksums content =
     (if test False True standardPattern content then True
      else if test True True bsdPattern content then True
      else False)"

text \<open>
  The three patterns of \<^verbatim>\<open>parseChecksums\<close>, all with the flag \<^verbatim>\<open>i\<close> alone:
  \<^verbatim>\<open>/^([0-9a-f]{32,128})\s+[\*\s]?(.+)$/i\<close>,
  \<^verbatim>\<open>/^(?:SHA256|SHA512|SHA1|MD5)\s*\(([^)]+)\)\s*=\s*([0-9a-f]{32,128})/i\<close> and
  \<^verbatim>\<open>/^([0-9a-f]{32,128})\s*=\s*(.+)$/i\<close>.
\<close>

definition format1 :: "item list" where
  "format1 =
     [Bol, Open, Rep Hex 32 (Some 128), Close, Plus Space, Opt StarOrSpace,
      Open, Plus Dot, Close, Eol]"

definition format2 :: "item list" where
  "format2 =
     [Bol, Alt algoNames, Star Space, One (Ch (CHR ''('')), Open, Plus NotRParen, Close,
      One (Ch (CHR '')'')), Star Space, One (Ch (CHR ''='')), Star Space,
      Open, Rep Hex 32 (Some 128), Close]"

definition format3 :: "item list" where
  "format3 =
     [Bol, Open, Rep Hex 32 (Some 128), Close, Star Space, One (Ch (CHR ''='')), Star Space,
      Open, Plus Dot, Close, Eol]"

text \<open>One turn of the loop over the lines: the first format that matches decides.\<close>

definition parse_line :: "jsobject \<Rightarrow> string \<Rightarrow> jsobject" where
  "parse_line checksums line =
     (let trimmed = trim line in
      if trimmed = [] \<or> startsWith trimmed ''#'' then checksums
      else case match True False format1 trimmed of
        Some [hash, filename] \<Rightarrow>
          obj_set checksums (last_segment (trim filename)) (toLowerCase hash)
      | _ \<Rightarrow>
       (case match True False format2 trimmed of
          Some [filename, hash] \<Rightarrow>
            obj_set checksums (last_segment (trim filename)) (toLowerCase hash)
        | _ \<Rightarrow>
         (case match True False format3 trimmed of
            Some [hash, filename] \<Rightarrow>
              obj_set checksums (last_segment (trim filename)) (toLowerCase hash)
          | _ \<Rightarrow> checksums)))"

definition parseChecksums :: "string \<Rightarrow> jsobject" where
  "parseChecksums content = foldl parse_line [] (split_lines content)"

definition getHashAlgorithm :: "string \<Rightarrow> string" where
  "getHashAlgorithm hash =
     (if length hash = 32 then ''MD5''
      else if length hash = 40 then ''SHA-1''
      else if length hash = 64 then ''SHA-256''
      else if length hash = 128 then ''SHA-512''
      else ''Unknown'')"

section \<open>Hash computation engine (checksum-addon.js)\<close>

text \<open>
  A file is the list of chunks its \<^verbatim>\<open>stream()\<close> hands out; the content is their
  concatenation and \<^verbatim>\<open>file.size\<close> its length. The two hashing libraries are
  collaborators outside the repository: each is a parameter, an incremental hasher with
  its creation (which may fail), \<^verbatim>\<open>update\<close> and the final hex digest.
\<close>

type_synonym bytes = "8 word list"

record jsfile =
  name :: string
  chunks :: "bytes list"
  has_stream :: bool

definition content :: "jsfile \<Rightarrow> bytes" where
  "content f = concat (chunks f)"

definition fsize :: "jsfile \<Rightarrow> nat" where
  "fsize f = length (content f)"

record 'h hasher =
  h_create :: "'h option"
  h_update :: "'h \<Rightarrow> bytes \<Rightarrow> 'h"
  h_hex :: "'h \<Rightarrow> string"

record ('w, 'j) libs =
  hashwasm :: "'w hasher option"   \<comment> \<open>\<^verbatim>\<open>hashwasm.createSHA256\<close>, when defined\<close>
  sha256 :: "'j hasher option"     \<comment> \<open>\<^verbatim>\<open>sha256\<close> of js-sha256, when defined\<close>

text \<open>
  The flag \<^verbatim>\<open>checksumState.verificationAborted\<close> is false when a run starts and is
  set by the Stop button. \<open>stopAt = Some n\<close> says the button is pressed once \<open>n\<close>
  awaited reads of the run have completed; \<open>aborted stopAt t\<close> is the flag as a poll
  sees it after \<open>t\<close> reads. Every function of a run takes the number of reads so far and
  returns it with its result. The progress callbacks only draw and are left out.
\<close>

definition aborted :: "nat option \<Rightarrow> nat \<Rightarrow> bool" where
  "aborted stopAt t = (case stopAt of None \<Rightarrow> False | Some n \<Rightarrow> n \<le> t)"

fun stream_loop :: "'h hasher \<Rightarrow> nat option \<Rightarrow> nat \<Rightarrow> bytes list \<Rightarrow> 'h \<Rightarrow> nat \<times> (error + string)" where
  "stream_loop H stopAt t [] h =
     (if aborted stopAt t then (t, Inl StoppedByUser) else (Suc t, Inr (h_hex H h)))"
| "stream_loop H stopAt t (c # cs) h =
     (if aborted stopAt t then (t, Inl StoppedByUser)
      else stream_loop H stopAt (Suc t) cs (h_update H h c))"

definition calculateHashWithFileStream ::
    "('w, 'j) libs \<Rightarrow> jsfile \<Rightarrow> nat option \<Rightarrow> nat \<Rightarrow> nat \<times> (error + string)" where
  "calculateHashWithFileStream L f stopAt t =
     (case sha256 L of
        None \<Rightarrow> (t, Inl LibraryNotLoaded)
      | Some H \<Rightarrow>
          (case h_create H of
             None \<Rightarrow> (t, Inl HasherFailed)
           | Some h0 \<Rightarrow> stream_loop H stopAt t (chunks f) h0))"

definition chunkSize :: nat where
  "chunkSize = 256 * 1024 * 1024"

definition chunkCount :: "jsfile \<Rightarrow> nat" where
  "chunkCount f = (fsize f + chunkSize - 1) div chunkSize"

definition slice :: "bytes \<Rightarrow> nat \<Rightarrow> nat \<Rightarrow> bytes" where
  "slice b start end' = take (end' - start) (drop start b)"

text \<open>
  The loop \<^verbatim>\<open>for (chunkIndex = 0; chunkIndex < chunks; chunkIndex++)\<close> of
  \<^verbatim>\<open>calculateHashStreaming\<close> and of the chunked branch of \<^verbatim>\<open>calculateHashWASM\<close>:
  \<open>k\<close> turns are left and \<open>i\<close> is the chunk index.
\<close>

fun slice_loop :: "'h hasher \<Rightarrow> nat option \<Rightarrow> jsfile \<Rightarrow> nat \<Rightarrow> nat \<Rightarrow> nat \<Rightarrow> 'h \<Rightarrow> nat \<times> (error + string)" where
  "slice_loop H stopAt f 0 i t h = (t, Inr (h_hex H h))"
| "slice_loop H stopAt f (Suc k) i t h =
     (if aborted stopAt t then (t, Inl StoppedByUser)
      else slice_loop H stopAt f k (Suc i) (Suc t)
             (h_update H h (slice (content f) (i * chunkSize)
                                  (min (i * chunkSize + chunkSize) (fsize f)))))"

definition calculateHashStreaming ::
    "('w, 'j) libs \<Rightarrow> jsfile \<Rightarrow> nat option \<Rightarrow> nat \<Rightarrow> nat \<times> (error + string)" where
  "calculateHashStreaming L f stopAt t =
     (case sha256 L of
        None \<Rightarrow> (t, Inl LibraryNotLoaded)
      | Some H \<Rightarrow>
          (case h_create H of
             None \<Rightarrow> (t, Inl HasherFailed)
           | Some h0 \<Rightarrow> slice_loop H stopAt f (chunkCount f) 0 t h0))"

text \<open>
  The stream loop of \<^verbatim>\<open>calculateHashWASM\<close>: the flag is polled only when 250 MB
  have been hashed since the last progress update; \<open>p\<close> is \<^verbatim>\<open>processedBytes\<close>
  and \<open>l\<close> is \<^verbatim>\<open>lastProgressUpdate\<close>.
\<close>

fun wasm_loop :: "'h hasher \<Rightarrow> nat option \<Rightarrow> nat \<Rightarrow> bytes list \<Rightarrow> 'h \<Rightarrow> nat \<Rightarrow> nat \<Rightarrow> nat \<times> (error + string)" where
  "wasm_loop W stopAt t [] h p l = (Suc t, Inr (h_hex W h))"
| "wasm_loop W stopAt t (c # cs) h p l =
     (if 250 * 1024 * 1024 \<le> p + length c - l
      then (if aborted stopAt (Suc t) then (Suc t, Inl StoppedByUser)
            else wasm_loop W stopAt (Suc t) cs (h_update W h c) (p + length c) (p + length c))
      else wasm_loop W stopAt (Suc t) cs (h_update W h c) (p + length c) l)"

definition wasm_try :: "'w hasher \<Rightarrow> jsfile \<Rightarrow> nat option \<Rightarrow> nat \<Rightarrow> nat \<times> (error + string)" where
  "wasm_try W f stopAt t =
     (case h_create W of
        None \<Rightarrow> (Suc t, Inl HasherFailed)
      | Some h0 \<Rightarrow>
          if has_stream f then wasm_loop W stopAt (Suc t) (chunks f) h0 0 0
          else slice_loop W stopAt f (chunkCount f) 0 (Suc t) h0)"

text \<open>The outer \<^verbatim>\<open>catch\<close> of \<^verbatim>\<open>calculateHashWASM\<close> falls back on any error.\<close>

definition calculateHashWASM ::
    "('w, 'j) libs \<Rightarrow> 'w hasher \<Rightarrow> jsfile \<Rightarrow> nat option \<Rightarrow> nat \<Rightarrow> nat \<times> (error + string)" where
  "calculateHashWASM L W f stopAt t =
     (case wasm_try W f stopAt t of
        (t', Inr hashHex) \<Rightarrow> (t', Inr hashHex)
      | (t', Inl e) \<Rightarrow>
          if has_stream f then calculateHashWithFileStream L f stopAt t'
          else calculateHashStreaming L f stopAt t')"

definition calculateFileHash ::
    "('w, 'j) libs \<Rightarrow> jsfile \<Rightarrow> nat option \<Rightarrow> nat \<Rightarrow> nat \<times> (error + string)" where
  "calculateFileHash L f stopAt t =
     (case hashwasm L of
        Some W \<Rightarrow> calculateHashWASM L W f stopAt t
      | None \<Rightarrow>
          if has_stream f then calculateHashWithFileStream L f stopAt t
          else calculateHashStreaming L f stopAt t)"

section \<open>Verification queue scheduler (checksum-addon.js)\<close>

datatype status = Pending | Processing | Completed | Error

record queueItem =
  file' :: jsfile
  status :: status
  result :: "error option"

text \<open>
  What \<^verbatim>\<open>checksumElements.result\<close> is made to show: the title of the panel and the
  values put into its text.
\<close>

datatype report =
    ChecksumVerified string string string
      \<comment> \<open>CHECKSUM VERIFIED: expected filename, algorithm, checksum\<close>
  | ChecksumMismatch jsvalue string
      \<comment> \<open>CHECKSUM MISMATCH: expected checksum, actual checksum\<close>
  | FilenameMismatch string string string "string list"
      \<comment> \<open>FILENAME MISMATCH: the file's name, algorithm, calculated hash, names listed\<close>
  | ErrorReport error
      \<comment> \<open>ERROR: Failed to calculate checksum\<close>
  | NoChecksumsLoaded
      \<comment> \<open>NO CHECKSUMS LOADED\<close>

datatype action =
    AskedConfirm "string list"   \<comment> \<open>the \<^verbatim>\<open>confirm\<close> dialog, with the names not in the list\<close>
  | JobStarted nat               \<comment> \<open>the job at this address was made \<^verbatim>\<open>processing\<close>\<close>
  | HashStarted nat              \<comment> \<open>\<^verbatim>\<open>calculateFileHash\<close> called for the job at this address\<close>

text \<open>
  The variables of the module. The jobs pushed on \<^verbatim>\<open>fileQueue\<close> are objects that
  \<^verbatim>\<open>processQueue\<close> still holds after the array is replaced by a new one: \<open>heap\<close>
  is the list of all job objects ever made, an object's address is its index, and
  \<open>fileQueue\<close> lists addresses. \<open>awaiting\<close> is the job whose
  \<^verbatim>\<open>verifyFileChecksum\<close> the loop of \<^verbatim>\<open>processQueue\<close> awaits, \<open>timers\<close> counts
  the pending \<^verbatim>\<open>setTimeout\<close> calls that will empty the queue, and \<open>trace\<close> records
  the dialogs, the jobs started and the hash computations in the order they happen. The texts of
  \<^verbatim>\<open>fileInfo\<close>, the progress bar and the queue display are left out.
\<close>

record cstate =
  parsedChecksums :: jsobject
  verifiedContent :: string
  verifiedFiles :: "string set"
  heap :: "queueItem list"
  fileQueue :: "nat list"
  isProcessingQueue :: bool
  isVerifying :: bool
  verificationAborted :: bool
  currentFile :: "jsfile option"
  awaiting :: "nat option"
  timers :: nat
  panel :: "report option"
  panelVisible :: bool
  containerVisible :: bool
  trace :: "action list"

definition stopChecksumVerification :: "cstate \<Rightarrow> cstate" where
  "stopChecksumVerification st =
     (if \<not> isVerifying st then st else st\<lparr>verificationAborted := True\<rparr>)"

definition showChecksumSection :: "string \<Rightarrow> cstate \<Rightarrow> cstate" where
  "showChecksumSection c st =
     (if \<not> containsChecksums c then st\<lparr>containerVisible := False\<rparr>
      else
        (let st1 = (if verifiedContent st \<noteq> c then st\<lparr>verifiedFiles := {}\<rparr> else st);
             st2 = st1\<lparr>verifiedContent := c, parsedChecksums := parseChecksums c\<rparr>
         in if parsedChecksums st2 = [] then st2\<lparr>containerVisible := False\<rparr>
            else st2\<lparr>containerVisible := True\<rparr>))"

definition hideChecksumSection :: "cstate \<Rightarrow> cstate" where
  "hideChecksumSection st =
     st\<lparr>containerVisible := False, parsedChecksums := [], verifiedFiles := {},
        verifiedContent := [], panelVisible := False\<rparr>"

subsection \<open>One job: \<^verbatim>\<open>verifyFileChecksum\<close>\<close>

text \<open>The part of \<^verbatim>\<open>verifyFileChecksum\<close> before the \<^verbatim>\<open>try\<close>.\<close>

definition verify_begin :: "jsfile \<Rightarrow> cstate \<Rightarrow> cstate" where
  "verify_begin f st =
     st\<lparr>currentFile := Some f, panelVisible := False,
        isVerifying := True, verificationAborted := False\<rparr>"

text \<open>
  The search for the entry to compare with: first by the file's name, where the value read
  (\<^verbatim>\<open>parsedChecksums[file.name]\<close>, own or inherited) counts when it is truthy, then
  by the digest among the own entries. The result is \<^verbatim>\<open>matchedFilename\<close> with
  \<^verbatim>\<open>expectedHash\<close>, or nothing when both stay \<^verbatim>\<open>null\<close>.
\<close>

definition by_name :: "jsobject \<Rightarrow> jsfile \<Rightarrow> (string \<times> jsvalue) option" where
  "by_name m f =
     (let v = obj_get m (name f) in if truthy v then Some (name f, v) else None)"

definition by_hash :: "jsobject \<Rightarrow> string \<Rightarrow> (string \<times> jsvalue) option" where
  "by_hash m calculatedHash =
     map_option (\<lambda>(filename, hash). (filename, Str hash))
       (find (\<lambda>(filename, hash). hash = calculatedHash) m)"

definition find_match :: "jsobject \<Rightarrow> jsfile \<Rightarrow> string \<Rightarrow> (string \<times> jsvalue) option" where
  "find_match m f calculatedHash =
     (case by_name m f of
        Some entry \<Rightarrow> Some entry
      | None \<Rightarrow> by_hash m calculatedHash)"

text \<open>The last branch: the panel FILENAME MISMATCH, which reads the first checksum.\<close>

definition filename_mismatch :: "jsobject \<Rightarrow> jsfile \<Rightarrow> string \<Rightarrow> error + report" where
  "filename_mismatch m f calculatedHash =
     (case m of
        [] \<Rightarrow> Inl TypeError
      | (filename, hash) # _ \<Rightarrow>
          Inr (FilenameMismatch (name f) (getHashAlgorithm hash) calculatedHash (map fst m)))"

text \<open>
  The \<^verbatim>\<open>try\<close> block from the hash on: \<open>r\<close> is what \<^verbatim>\<open>calculateFileHash\<close>
  gave. In the first branch \<^verbatim>\<open>expectedHash\<close> is the string \<^verbatim>\<open>calculatedHash\<close>,
  whose algorithm is named.
\<close>

definition try_body :: "jsobject \<Rightarrow> jsfile \<Rightarrow> error + string \<Rightarrow> error + report" where
  "try_body m f r =
     (case r of
        Inl e \<Rightarrow> Inl e
      | Inr calculatedHash \<Rightarrow>
          (case find_match m f calculatedHash of
             None \<Rightarrow> filename_mismatch m f calculatedHash
           | Some (matchedFilename, expectedHash) \<Rightarrow>
               if matchedFilename \<noteq> [] \<and> expectedHash = Str calculatedHash
               then Inr (ChecksumVerified matchedFilename
                           (getHashAlgorithm calculatedHash) calculatedHash)
               else if truthy expectedHash \<and> expectedHash \<noteq> Str calculatedHash
               then Inr (ChecksumMismatch expectedHash calculatedHash)
               else filename_mismatch m f calculatedHash))"

text \<open>The \<^verbatim>\<open>try\<close> block from the hash on, with \<^verbatim>\<open>catch\<close> and \<^verbatim>\<open>finally\<close>.\<close>

definition verify_settle :: "jsfile \<Rightarrow> error + string \<Rightarrow> cstate \<Rightarrow> cstate" where
  "verify_settle f r st =
     (let st1 =
        (case try_body (parsedChecksums st) f r of
           Inr (ChecksumVerified matchedFilename alg h) \<Rightarrow>
             st\<lparr>verifiedFiles := insert matchedFilename (verifiedFiles st),
                panel := Some (ChecksumVerified matchedFilename alg h)\<rparr>
         | Inr rep \<Rightarrow> st\<lparr>panel := Some rep\<rparr>
         | Inl e \<Rightarrow>
             if verificationAborted st then st\<lparr>panelVisible := False\<rparr>
             else st\<lparr>panel := Some (ErrorReport e), panelVisible := True\<rparr>)
      in st1\<lparr>isVerifying := False, verificationAborted := False, currentFile := None\<rparr>)"

text \<open>
  A whole run of \<^verbatim>\<open>verifyFileChecksum\<close>, the Stop button pressed as \<open>stopAt\<close> says.
  With no checksum loaded the algorithm's name cannot be read and nothing is hashed.
\<close>

definition verifyFileChecksum ::
    "('w, 'j) libs \<Rightarrow> nat option \<Rightarrow> jsfile \<Rightarrow> cstate \<Rightarrow> cstate" where
  "verifyFileChecksum L stopAt f st =
     (let st1 = verify_begin f st in
      if parsedChecksums st1 = [] then verify_settle f (Inl TypeError) st1
      else case calculateFileHash L f stopAt 0 of
        (t, r) \<Rightarrow>
          verify_settle f r
            (if aborted stopAt t then stopChecksumVerification st1 else st1))"

subsection \<open>The queue: \<^verbatim>\<open>handleChecksumFileUpload\<close> and \<^verbatim>\<open>processQueue\<close>\<close>

definition pending :: "cstate \<Rightarrow> nat \<Rightarrow> bool" where
  "pending st a = (a < length (heap st) \<and> status (heap st ! a) = Pending)"

definition set_status :: "nat \<Rightarrow> status \<Rightarrow> cstate \<Rightarrow> cstate" where
  "set_status a s st = st\<lparr>heap := (heap st)[a := (heap st ! a)\<lparr>status := s\<rparr>]\<rparr>"

definition start_job :: "nat \<Rightarrow> cstate \<Rightarrow> cstate" where
  "start_job a st = (set_status a Processing st)\<lparr>trace := trace st @ [JobStarted a]\<rparr>"

text \<open>After the loop of \<^verbatim>\<open>processQueue\<close>.\<close>

definition queue_done :: "cstate \<Rightarrow> cstate" where
  "queue_done st = st\<lparr>isProcessingQueue := False, timers := Suc (timers st)\<rparr>"

text \<open>
  The loop of \<^verbatim>\<open>processQueue\<close>, up to the point where it waits for a hash. A job
  that starts with no checksum loaded ends at once and the loop goes on.
  \<^verbatim>\<open>verifyFileChecksum\<close> catches every error of its \<^verbatim>\<open>try\<close> block, so a job
  that ends is made \<^verbatim>\<open>completed\<close>.
\<close>

function queue_loop :: "cstate \<Rightarrow> cstate" where
  "queue_loop st =
     (if fileQueue st = [] then queue_done st
      else case find (pending st) (fileQueue st) of
        None \<Rightarrow> queue_done st
      | Some a \<Rightarrow>
          (let f = file' (heap st ! a);
               st1 = verify_begin f (start_job a st)
           in if parsedChecksums st1 = []
              then queue_loop (set_status a Completed (verify_settle f (Inl TypeError) st1))
              else st1\<lparr>awaiting := Some a, trace := trace st1 @ [HashStarted a]\<rparr>))"
  by pat_completeness auto
termination
proof (relation "measure (\<lambda>st. length (filter (pending st) (fileQueue st)))")
  show "wf (measure (\<lambda>st. length (filter (pending st) (fileQueue st))))"
    by simp
next
  fix st :: cstate and a f st1
  assume fnd: "find (pending st) (fileQueue st) = Some a"
    and f: "f = file' (heap st ! a)"
    and st1: "st1 = verify_begin f (start_job a st)"
  let ?st' = "set_status a Completed (verify_settle f (Inl TypeError) st1)"
  from fnd have a: "a \<in> set (fileQueue st)" "pending st a"
    by (auto simp: find_Some_iff in_set_conv_nth)
  have q: "fileQueue ?st' = fileQueue st"
    by (simp add: st1 set_status_def start_job_def verify_settle_def verify_begin_def
        try_body_def Let_def)
  have h: "heap ?st' = (heap st)[a := (heap st ! a)\<lparr>status := Completed\<rparr>]"
    using a(2)
    by (simp add: st1 set_status_def start_job_def verify_settle_def verify_begin_def
        try_body_def Let_def pending_def)
  have na: "\<not> pending ?st' a"
    using a(2) by (simp add: pending_def h)
  have sub: "pending st b" if "pending ?st' b" for b
  proof (cases "b = a")
    case True
    with a(2) show ?thesis by simp
  next
    case False
    with that show ?thesis by (simp add: pending_def h)
  qed
  have "filter (pending ?st') q = filter (pending ?st') (filter (pending st) q)" for q
    using sub by (induction q) auto
  moreover have "a \<in> set (filter (pending st) (fileQueue st))"
    using a by simp
  ultimately have "length (filter (pending ?st') (fileQueue st))
      < length (filter (pending st) (fileQueue st))"
    using na by (metis length_filter_less)
  then show "(?st', st) \<in> measure (\<lambda>st. length (filter (pending st) (fileQueue st)))"
    using q by simp
qed

declare queue_loop.simps [simp del]

definition processQueue :: "cstate \<Rightarrow> cstate" where
  "processQueue st =
     (if isProcessingQueue st then st else queue_loop (st\<lparr>isProcessingQueue := True\<rparr>))"

definition push_files :: "jsfile list \<Rightarrow> cstate \<Rightarrow> cstate" where
  "push_files files st =
     st\<lparr>heap := heap st @ map (\<lambda>f. \<lparr>file' = f, status = Pending, result = None\<rparr>) files,
        fileQueue := fileQueue st @ [length (heap st) ..< length (heap st) + length files]\<rparr>"

definition enqueue :: "jsfile list \<Rightarrow> cstate \<Rightarrow> cstate" where
  "enqueue files st =
     (let st1 = push_files files st in
      if \<not> isProcessingQueue st1 then processQueue st1 else st1)"

text \<open>
  \<^verbatim>\<open>files.filter(f => !parsedChecksums.hasOwnProperty(f.name))\<close>: the callback runs
  for each file in turn, and what it throws ends the filter.
\<close>

fun not_in_list :: "jsobject \<Rightarrow> jsfile list \<Rightarrow> error + jsfile list" where
  "not_in_list m [] = Inr []"
| "not_in_list m (f # fs) =
     (case hasOwnProperty m (name f) of
        Inl e \<Rightarrow> Inl e
      | Inr b \<Rightarrow>
          (case not_in_list m fs of
             Inl e \<Rightarrow> Inl e
           | Inr r \<Rightarrow> Inr (if \<not> b then f # r else r)))"

text \<open>
  \<open>userConfirmed\<close> is the answer given to the \<^verbatim>\<open>confirm\<close> dialog, when it is shown.
  An error thrown leaves the handler at once.
\<close>

definition handleChecksumFileUpload ::
    "jsfile list \<Rightarrow> bool \<Rightarrow> cstate \<Rightarrow> error + cstate" where
  "handleChecksumFileUpload files userConfirmed st =
     (if files = [] then Inr st
      else if parsedChecksums st = []
      then Inr (st\<lparr>panel := Some NoChecksumsLoaded, panelVisible := True\<rparr>)
      else
        (case not_in_list (parsedChecksums st) files of
           Inl e \<Rightarrow> Inl e
         | Inr filesNotInList \<Rightarrow>
             if filesNotInList \<noteq> [] \<and> length filesNotInList = length files
             then
               (let st1 = st\<lparr>trace := trace st @ [AskedConfirm (map name filesNotInList)]\<rparr>
                in if \<not> userConfirmed then Inr st1 else Inr (enqueue files st1))
             else Inr (enqueue files st)))"

subsection \<open>The scheduler as a machine\<close>

text \<open>
  What can happen between two waits: files are chosen, the hash of the awaited job
  settles (with a digest or an error), Stop is pressed, a timer that empties the queue
  fires, the main page shows or hides the checksum section. Nothing catches what the
  \<^verbatim>\<open>change\<close> listener throws: the variables stay as they were at the throw.
\<close>

datatype event =
    Upload "jsfile list" bool
  | Settle "error + string"
  | Stop
  | Timeout
  | ShowSection string
  | HideSection

definition settle :: "error + string \<Rightarrow> cstate \<Rightarrow> cstate" where
  "settle r st =
     (case awaiting st of
        None \<Rightarrow> st
      | Some a \<Rightarrow>
          queue_loop
            (set_status a Completed
               (verify_settle (file' (heap st ! a)) r (st\<lparr>awaiting := None\<rparr>))))"

definition timeout :: "cstate \<Rightarrow> cstate" where
  "timeout st = (if timers st = 0 then st else st\<lparr>fileQueue := [], timers := timers st - 1\<rparr>)"

fun step :: "event \<Rightarrow> cstate \<Rightarrow> cstate" where
  "step (Upload files userConfirmed) st =
     (case handleChecksumFileUpload files userConfirmed st of
        Inl e \<Rightarrow> st
      | Inr st' \<Rightarrow> st')"
| "step (Settle r) st = settle r st"
| "step Stop st = stopChecksumVerification st"
| "step Timeout st = timeout st"
| "step (ShowSection c) st = showChecksumSection c st"
| "step HideSection st = hideChecksumSection st"

definition run :: "event list \<Rightarrow> cstate \<Rightarrow> cstate" where
  "run evs st = foldl (\<lambda>s e. step e s) st evs"

text \<open>The module once loaded, with the checksums \<open>m\<close> and no job.\<close>

definition idle :: "jsobject \<Rightarrow> cstate" where
  "idle m =
     \<lparr>parsedChecksums = m, verifiedContent = [], verifiedFiles = {}, heap = [],
      fileQueue = [], isProcessingQueue = False, isVerifying = False,
      verificationAborted = False, currentFile = None, awaiting = None, timers = 0,
      panel = None, panelVisible = False, containerVisible = False, trace = []\<rparr>"

section \<open>Signature verification pipeline, detached mode (app.js)\<close>

text \<open>
  A run of \<^verbatim>\<open>verifySignature\<close> with a detached signature and a data file, once the
  guard at its head has let it start. What the collaborators (the file reader and
  OpenPGP.js) answer is given by the environment.
\<close>

datatype vdata =
    DataStream "bytes list"   \<comment> \<open>\<^verbatim>\<open>verificationResult.data\<close> is a stream of these chunks\<close>
  | DataArray                 \<comment> \<open>a \<^verbatim>\<open>Uint8Array\<close>\<close>
  | DataOther                 \<comment> \<open>any other value, or none\<close>

record venv =
  keys_ok :: bool                \<comment> \<open>the verification keys are there or parse\<close>
  signature_ok :: bool           \<comment> \<open>the signature file is read and parses\<close>
  data_size :: nat               \<comment> \<open>\<^verbatim>\<open>state.dataFile.size\<close>\<close>
  data_text :: "string option"   \<comment> \<open>\<^verbatim>\<open>readFileAsText(state.dataFile)\<close>, when it succeeds\<close>
  text_message_ok :: bool        \<comment> \<open>\<^verbatim>\<open>createMessage\<close> of the text succeeds\<close>
  stream_message_ok :: bool      \<comment> \<open>\<^verbatim>\<open>createMessage\<close> of the stream succeeds\<close>
  verify_ok :: bool              \<comment> \<open>\<^verbatim>\<open>openpgp.verify\<close> resolves\<close>
  result_data :: vdata           \<comment> \<open>\<^verbatim>\<open>verificationResult.data\<close>\<close>
  verified :: bool               \<comment> \<open>\<^verbatim>\<open>signatures[0].verified\<close> resolves\<close>
  keyinfo_ok :: bool             \<comment> \<open>the result is formatted and shown without an exception\<close>

datatype mode = TextMode string | StreamMode

text \<open>The choice between text and stream for the data file.\<close>

definition hasNullBytes :: "string \<Rightarrow> bool" where
  "hasNullBytes dataText =
     (let sampleLength = min (length dataText) 1000
      in CHR 0x00 \<in> set (take sampleLength dataText))"

definition data_mode :: "venv \<Rightarrow> mode" where
  "data_mode env =
     (if data_size env < 1000000
      then (case data_text env of
              None \<Rightarrow> StreamMode
            | Some dataText \<Rightarrow>
                if \<not> hasNullBytes dataText
                then (if text_message_ok env then TextMode dataText else StreamMode)
                else StreamMode)
      else StreamMode)"

datatype voutcome =
    Cancelled                   \<comment> \<open>the \<^verbatim>\<open>return\<close> of the drain loop: nothing is shown\<close>
  | Success "string option"     \<comment> \<open>\<^verbatim>\<open>showSuccess\<close>, with the verified text if any\<close>
  | Invalid                     \<comment> \<open>\<^verbatim>\<open>showInvalid\<close>\<close>
  | ErrorShown                  \<comment> \<open>\<^verbatim>\<open>showError\<close>\<close>
  | Suppressed                  \<comment> \<open>an exception after Stop was pressed: nothing is shown\<close>

text \<open>
  The loop that consumes \<^verbatim>\<open>verificationResult.data\<close>: \<open>None\<close> is its
  \<^verbatim>\<open>return\<close>, otherwise the reads made and \<^verbatim>\<open>consumedBytes\<close>. The flag
  \<^verbatim>\<open>state.verificationAborted\<close> is read by \<open>aborted\<close> as in the hash engine.
\<close>

fun drain :: "nat option \<Rightarrow> nat \<Rightarrow> bytes list \<Rightarrow> nat \<Rightarrow> (nat \<times> nat) option" where
  "drain stopAt t [] consumedBytes =
     (if aborted stopAt t then None else Some (Suc t, consumedBytes))"
| "drain stopAt t (v # vs) consumedBytes =
     (if aborted stopAt t then None
      else drain stopAt (Suc t) vs (consumedBytes + length v))"

text \<open>The outer \<^verbatim>\<open>catch\<close>.\<close>

definition on_error :: "nat option \<Rightarrow> nat \<Rightarrow> voutcome" where
  "on_error stopAt t = (if aborted stopAt t then Suppressed else ErrorShown)"

text \<open>
  Keys, signature and message: \<open>None\<close> is an exception, otherwise
  \<^verbatim>\<open>verifiedDataContent\<close>.
\<close>

definition prepare :: "venv \<Rightarrow> string option option" where
  "prepare env =
     (if \<not> keys_ok env then None
      else if \<not> signature_ok env then None
      else case data_mode env of
             TextMode dataText \<Rightarrow> Some (Some dataText)
           | StreamMode \<Rightarrow> if stream_message_ok env then Some None else None)"

text \<open>What is done with \<^verbatim>\<open>verificationResult.data\<close>, by its kind.\<close>

definition consume :: "venv \<Rightarrow> nat option \<Rightarrow> (nat \<times> nat) option" where
  "consume env stopAt =
     (case result_data env of
        DataStream vs \<Rightarrow> drain stopAt 0 vs 0
      | DataArray \<Rightarrow> Some (0, 0)
      | DataOther \<Rightarrow> Some (0, 0))"

text \<open>After the data: the validity, then the result shown.\<close>

definition conclude :: "venv \<Rightarrow> nat option \<Rightarrow> string option \<Rightarrow> nat \<Rightarrow> voutcome" where
  "conclude env stopAt verifiedDataContent t =
     (if \<not> verified env then on_error stopAt (Suc t)
      else if keyinfo_ok env then Success verifiedDataContent
      else if aborted stopAt (Suc t) then Suppressed
      else Invalid)"

definition verifySignature :: "venv \<Rightarrow> nat option \<Rightarrow> voutcome" where
  "verifySignature env stopAt =
     (case prepare env of
        None \<Rightarrow> on_error stopAt 0
      | Some verifiedDataContent \<Rightarrow>
          if \<not> verify_ok env then on_error stopAt 0
          else (case consume env stopAt of
                  None \<Rightarrow> Cancelled
                | Some (t, consumedBytes) \<Rightarrow> conclude env stopAt verifiedDataContent t))"

section \<open>Notions used in the statements\<close>

subsection \<open>The queue\<close>

text \<open>
  The jobs started, in the order of their start; and what holds of the variables of the
  module whenever \<^verbatim>\<open>processQueue\<close> waits or is not running: the queue is the list of
  the addresses from some address on, the awaited job is the one job that is
  \<^verbatim>\<open>processing\<close>, the jobs started were started in ascending order of address, none
  of them is pending, all of them but the awaited one are completed, and every job
  pending in the queue has a greater address than every job started.
\<close>

definition started :: "action list \<Rightarrow> nat list" where
  "started tr = concat (map (\<lambda>x. case x of JobStarted a \<Rightarrow> [a] | _ \<Rightarrow> []) tr)"

definition core :: "cstate \<Rightarrow> bool" where
  "core st =
     ((\<exists>b\<le>length (heap st). fileQueue st = [b..<length (heap st)]) \<and>
      (\<forall>a<length (heap st). (status (heap st ! a) = Processing) = (awaiting st = Some a)) \<and>
      (\<forall>a. awaiting st = Some a \<longrightarrow> a < length (heap st)) \<and>
      sorted_wrt (<) (started (trace st)) \<and>
      (\<forall>s\<in>set (started (trace st)). s < length (heap st) \<and> status (heap st ! s) \<noteq> Pending
          \<and> (awaiting st \<noteq> Some s \<longrightarrow> status (heap st ! s) = Completed)) \<and>
      (\<forall>s\<in>set (started (trace st)). \<forall>p\<in>set (fileQueue st). pending st p \<longrightarrow> s < p))"

definition queue_inv :: "cstate \<Rightarrow> bool" where
  "queue_inv st = (core st \<and> (isProcessingQueue st = (awaiting st \<noteq> None)))"

fun is_confirm :: "action \<Rightarrow> bool" where
  "is_confirm (AskedConfirm ns) = True"
| "is_confirm (JobStarted a) = False"
| "is_confirm (HashStarted a) = False"

subsection \<open>The hashing libraries\<close>

text \<open>
  A hasher implements the function \<open>sha\<close> of whole contents when, fed any chunks one
  after the other, it ends with \<open>sha\<close> of their concatenation. \<open>piece f i\<close> is the
  chunk of index \<open>i\<close> that the chunked loops slice off the file.
\<close>

definition implements :: "'h hasher \<Rightarrow> (bytes \<Rightarrow> string) \<Rightarrow> bool" where
  "implements H sha =
     (\<forall>h0 cs. h_create H = Some h0 \<longrightarrow> h_hex H (foldl (h_update H) h0 cs) = sha (concat cs))"

definition piece :: "jsfile \<Rightarrow> nat \<Rightarrow> bytes" where
  "piece f i = slice (content f) (i * chunkSize) (min (i * chunkSize + chunkSize) (fsize f))"

text \<open>
  A stand-in for the two hashing libraries, to run the model on concrete files: it
  gives the empty content its SHA-256 digest and any other content 64 zeros. In
  \<open>stub_libs\<close> both libraries are loaded, in \<open>js_only\<close> js-sha256 alone.
\<close>

definition empty_digest :: string where
  "empty_digest = ''e3b0c44298fc1c149afbf4c8996fb92427ae41e4649b934ca495991b7852b855''"

definition stub_sha :: "bytes \<Rightarrow> string" where
  "stub_sha b = (if b = [] then empty_digest else replicate 64 (CHR ''0''))"

definition stub_hasher :: "bytes hasher" where
  "stub_hasher = \<lparr>h_create = Some [], h_update = (\<lambda>h c. h @ c), h_hex = stub_sha\<rparr>"

definition stub_libs :: "(bytes, bytes) libs" where
  "stub_libs = \<lparr>hashwasm = Some stub_hasher, sha256 = Some stub_hasher\<rparr>"

definition js_only :: "(bytes, bytes) libs" where
  "js_only = \<lparr>hashwasm = None, sha256 = Some stub_hasher\<rparr>"

subsection \<open>Concrete inputs\<close>

text \<open>
  A list with one checksum, the SHA-256 digest of the empty content; two empty files, one
  named in the list and one not; and a sequence of events: both files are chosen, the
  hash of the first settles, the second file is chosen again and the user confirms.
\<close>

definition manifest_a :: jsobject where
  "manifest_a = [(''a.iso'', empty_digest)]"

definition file_a :: jsfile where
  "file_a = \<lparr>name = ''a.iso'', chunks = [], has_stream = True\<rparr>"

text \<open>
  A list of two lines, the first for a file named \<^verbatim>\<open>hasOwnProperty\<close>, and the
  checksums read from it.
\<close>

definition manifest_h :: jsobject where
  "manifest_h = [(''hasOwnProperty'', empty_digest), (''a.iso'', empty_digest)]"

definition list_h :: string where
  "list_h = empty_digest @ ''  hasOwnProperty'' @ [CHR 0x0A] @ empty_digest @ ''  a.iso''"

definition file_b :: jsfile where
  "file_b = \<lparr>name = ''b.iso'', chunks = [], has_stream = True\<rparr>"

definition events_a :: "event list" where
  "events_a = [Upload [file_a, file_b] False, Settle (Inr empty_digest), Upload [file_b] True]"

text \<open>A list with one checksum, 64 zeros, and a file of two chunks named in it.\<close>

definition manifest_c :: jsobject where
  "manifest_c = [(''c.iso'', replicate 64 (CHR ''0''))]"

definition file_c :: jsfile where
  "file_c = \<lparr>name = ''c.iso'', chunks = [[1], [2]], has_stream = True\<rparr>"

text \<open>
  An environment in which the data file is streamed, the verification returns the data
  as a stream of two chunks and the signature is not valid.
\<close>

definition env_stream :: venv where
  "env_stream = \<lparr>keys_ok = True, signature_ok = True, data_size = 3,
      data_text = Some [CHR 0x00, CHR ''a'', CHR ''b''],
      text_message_ok = True, stream_message_ok = True, verify_ok = True,
      result_data = DataStream [[0, 97], [98]], verified = False, keyinfo_ok = True\<rparr>"

section \<open>The manifest parser on two lines\<close>

text \<open>
  C2. A line \<^verbatim>\<open><hex-digest> = <filename>\<close> should store the digest under the last
  path segment of the filename, a key that does not begin with the equals sign. With
  white space before the equals sign the first pattern of \<^verbatim>\<open>parseChecksums\<close>
  matches before the third is tried, and the key stored is the equals sign, the space
  and the filename. The third pattern is reached, and the key is the filename, only when
  the equals sign follows the digest at once.
\<close>

theorem C2_spaced_equals_line:
  "parseChecksums ''d41d8cd98f00b204e9800998ecf8427e = file.txt''
     = [(''= file.txt'', ''d41d8cd98f00b204e9800998ecf8427e'')]
   \<and> parseChecksums ''d41d8cd98f00b204e9800998ecf8427e= file.txt''
     = [(''file.txt'', ''d41d8cd98f00b204e9800998ecf8427e'')]"
  by code_simp

text \<open>
  C4. Whenever \<^verbatim>\<open>parseChecksums\<close> finds a checksum in a text,
  \<^verbatim>\<open>containsChecksums\<close> should be true of it, for hex digits of either case. The
  first pattern of \<^verbatim>\<open>containsChecksums\<close> lacks the flag \<^verbatim>\<open>i\<close>: on a standard line
  with upper-case digits it is false, and \<^verbatim>\<open>parseChecksums\<close> reads the line. On the
  same line in lower case it is true.
\<close>

theorem C4_uppercase_line:
  "containsChecksums ''D41D8CD98F00B204E9800998ECF8427E  file.txt'' = False
   \<and> parseChecksums ''D41D8CD98F00B204E9800998ECF8427E  file.txt''
       = [(''file.txt'', ''d41d8cd98f00b204e9800998ecf8427e'')]
   \<and> containsChecksums ''d41d8cd98f00b204e9800998ecf8427e  file.txt'' = True"
  by code_simp

section \<open>Text or stream for the data file\<close>

lemma hasNullBytes_iff: "hasNullBytes t = (CHR 0x00 \<in> set (take 1000 t))"
  by (simp add: hasNullBytes_def Let_def min_def)

text \<open>
  C1, as stated: a data file below the threshold whose text has a null anywhere is
  streamed. It fails for a null after the first 1000 characters: the text below has 1001
  characters, the last one null, and is taken as text.
\<close>

theorem C1_late_null_counterexample:
  "data_size \<lparr>keys_ok = True, signature_ok = True, data_size = 1001,
      data_text = Some (replicate 1000 (CHR ''a'') @ [CHR 0x00]),
      text_message_ok = True, stream_message_ok = True, verify_ok = True,
      result_data = DataOther, verified = True, keyinfo_ok = True\<rparr> < 1000000
   \<and> CHR 0x00 \<in> set (replicate 1000 (CHR ''a'') @ [CHR 0x00])
   \<and> data_mode \<lparr>keys_ok = True, signature_ok = True, data_size = 1001,
      data_text = Some (replicate 1000 (CHR ''a'') @ [CHR 0x00]),
      text_message_ok = True, stream_message_ok = True, verify_ok = True,
      result_data = DataOther, verified = True, keyinfo_ok = True\<rparr>
     = TextMode (replicate 1000 (CHR ''a'') @ [CHR 0x00])"
  by (simp add: data_mode_def hasNullBytes_def)

text \<open>
  C1, amended: a data file below 1000000 bytes whose text has a null among its first
  1000 characters is streamed; with no null there, it is taken as text whenever the
  message can be made of the text.
\<close>

theorem C1_null_in_sample:
  assumes "data_size env < 1000000" and "data_text env = Some dataText"
  shows "(CHR 0x00 \<in> set (take 1000 dataText) \<longrightarrow> data_mode env = StreamMode)
       \<and> (CHR 0x00 \<notin> set (take 1000 dataText) \<and> text_message_ok env
            \<longrightarrow> data_mode env = TextMode dataText)"
  using assms by (simp add: data_mode_def hasNullBytes_iff)

theorem C1_null_in_sample_witness:
  "data_mode \<lparr>keys_ok = True, signature_ok = True, data_size = 2,
      data_text = Some [CHR ''a'', CHR 0x00],
      text_message_ok = True, stream_message_ok = True, verify_ok = True,
      result_data = DataOther, verified = True, keyinfo_ok = True\<rparr> = StreamMode
   \<and> data_mode \<lparr>keys_ok = True, signature_ok = True, data_size = 2,
      data_text = Some ''ab'',
      text_message_ok = True, stream_message_ok = True, verify_ok = True,
      result_data = DataOther, verified = True, keyinfo_ok = True\<rparr> = TextMode ''ab''"
  using C1_null_in_sample [of "\<lparr>keys_ok = True, signature_ok = True, data_size = 2,
      data_text = Some [CHR ''a'', CHR 0x00],
      text_message_ok = True, stream_message_ok = True, verify_ok = True,
      result_data = DataOther, verified = True, keyinfo_ok = True\<rparr>" "[CHR ''a'', CHR 0x00]"]
    C1_null_in_sample [of "\<lparr>keys_ok = True, signature_ok = True, data_size = 2,
      data_text = Some ''ab'',
      text_message_ok = True, stream_message_ok = True, verify_ok = True,
      result_data = DataOther, verified = True, keyinfo_ok = True\<rparr>" "''ab''"]
  by simp

section \<open>The queue discipline\<close>

lemma started_append [simp]: "started (xs @ ys) = started xs @ started ys"
  by (simp add: started_def)

lemma started_simps [simp]:
  "started [] = []"
  "started (JobStarted a # xs) = a # started xs"
  "started (HashStarted a # xs) = started xs"
  "started (AskedConfirm ns # xs) = started xs"
  by (simp_all add: started_def)

lemma find_upt:
  assumes "find P [b..<n] = Some a"
  shows "P a \<and> b \<le> a \<and> a < n \<and> (\<forall>c. b \<le> c \<and> c < a \<longrightarrow> \<not> P c)"
proof -
  from assms obtain i where i: "i < n - b" "P ([b..<n] ! i)" "a = [b..<n] ! i"
    "\<forall>j<i. \<not> P ([b..<n] ! j)"
    by (auto simp: find_Some_iff)
  have a: "a = b + i" using i(1,3) by simp
  have "\<not> P c" if "b \<le> c" "c < a" for c
  proof -
    have "c - b < i" using that a by arith
    moreover have "[b..<n] ! (c - b) = c" using that a i(1) by simp
    ultimately show ?thesis using i(4) by metis
  qed
  then show ?thesis using i a by auto
qed

lemma core_start:
  assumes c: "core st" and aw: "awaiting st = None"
    and fnd: "find (pending st) (fileQueue st) = Some a"
    and h: "heap st' = (heap st)[a := (heap st ! a)\<lparr>status := Processing\<rparr>]"
    and q: "fileQueue st' = fileQueue st"
    and aw': "awaiting st' = Some a"
    and tr: "started (trace st') = started (trace st) @ [a]"
  shows "core st'"
proof -
  from c obtain b where b: "b \<le> length (heap st)" "fileQueue st = [b..<length (heap st)]"
    by (auto simp: core_def)
  from fnd b(2) have fa: "pending st a" "b \<le> a" "a < length (heap st)"
    "\<forall>c. b \<le> c \<and> c < a \<longrightarrow> \<not> pending st c"
    using find_upt [of "pending st" b "length (heap st)" a] by auto
  have noproc: "\<forall>x<length (heap st). status (heap st ! x) \<noteq> Processing"
    using c aw by (simp add: core_def)
  have len: "length (heap st') = length (heap st)" by (simp add: h)
  have nth: "\<And>x. x < length (heap st) \<Longrightarrow> status (heap st' ! x) =
      (if x = a then Processing else status (heap st ! x))"
    by (simp add: h nth_list_update)
  have pend': "\<And>p. pending st' p \<Longrightarrow> pending st p \<and> p \<noteq> a"
    by (auto simp: pending_def len nth split: if_splits)
  have lt: "\<forall>s\<in>set (started (trace st)). s < a"
    using c fa(1,3) b(2) fa(2) by (auto simp: core_def)
  have 1: "\<exists>b\<le>length (heap st'). fileQueue st' = [b..<length (heap st')]"
    using b by (auto simp: q len)
  have 2: "\<forall>x<length (heap st'). (status (heap st' ! x) = Processing) = (awaiting st' = Some x)"
    using noproc by (auto simp: len nth aw')
  have 3: "\<forall>x. awaiting st' = Some x \<longrightarrow> x < length (heap st')"
    using fa(3) by (simp add: aw' len)
  have 4: "sorted_wrt (<) (started (trace st'))"
    using c lt by (auto simp: core_def tr sorted_wrt_append)
  have 5: "\<forall>s\<in>set (started (trace st')). s < length (heap st') \<and> status (heap st' ! s) \<noteq> Pending
          \<and> (awaiting st' \<noteq> Some s \<longrightarrow> status (heap st' ! s) = Completed)"
  proof
    fix s assume s: "s \<in> set (started (trace st'))"
    show "s < length (heap st') \<and> status (heap st' ! s) \<noteq> Pending
          \<and> (awaiting st' \<noteq> Some s \<longrightarrow> status (heap st' ! s) = Completed)"
    proof (cases "s = a")
      case True
      then show ?thesis using fa(3) by (simp add: len nth aw')
    next
      case False
      with s have "s \<in> set (started (trace st))" by (simp add: tr)
      with c aw have "s < length (heap st)" "status (heap st ! s) \<noteq> Pending"
        "status (heap st ! s) = Completed"
        by (auto simp: core_def)
      with False show ?thesis by (simp add: len nth aw')
    qed
  qed
  have 6: "\<forall>s\<in>set (started (trace st')). \<forall>p\<in>set (fileQueue st'). pending st' p \<longrightarrow> s < p"
  proof (intro ballI impI)
    fix s p assume s: "s \<in> set (started (trace st'))" and p: "p \<in> set (fileQueue st')"
      and pp: "pending st' p"
    from pend' [OF pp] have pq: "pending st p" "p \<noteq> a" by auto
    from p have pb: "b \<le> p" by (simp add: q b(2))
    have "a < p"
    proof (rule ccontr)
      assume "\<not> a < p"
      with pq(2) have "p < a" by simp
      with fa(4) pb pq(1) show False by blast
    qed
    moreover have "s \<le> a" using s lt by (auto simp: tr)
    ultimately show "s < p" by simp
  qed
  show ?thesis
    unfolding core_def using 1 2 3 4 5 6 by blast
qed

lemma core_finish:
  assumes c: "core st" and aw: "awaiting st = Some a"
    and h: "heap st' = (heap st)[a := (heap st ! a)\<lparr>status := Completed\<rparr>]"
    and q: "fileQueue st' = fileQueue st"
    and aw': "awaiting st' = None"
    and tr: "started (trace st') = started (trace st)"
  shows "core st'"
proof -
  from c aw have a: "a < length (heap st)" by (simp add: core_def)
  have len: "length (heap st') = length (heap st)" by (simp add: h)
  have nth: "\<And>x. x < length (heap st) \<Longrightarrow> status (heap st' ! x) =
      (if x = a then Completed else status (heap st ! x))"
    by (simp add: h nth_list_update)
  have pend': "\<And>p. pending st' p \<Longrightarrow> pending st p"
    by (auto simp: pending_def len nth split: if_splits)
  have 1: "\<exists>b\<le>length (heap st'). fileQueue st' = [b..<length (heap st')]"
    using c by (auto simp: q len core_def)
  have 2: "\<forall>x<length (heap st'). (status (heap st' ! x) = Processing) = (awaiting st' = Some x)"
    using c aw by (auto simp: len nth aw' core_def)
  have 3: "\<forall>x. awaiting st' = Some x \<longrightarrow> x < length (heap st')"
    by (simp add: aw')
  have 4: "sorted_wrt (<) (started (trace st'))"
    using c by (simp add: core_def tr)
  have 5: "\<forall>s\<in>set (started (trace st')). s < length (heap st') \<and> status (heap st' ! s) \<noteq> Pending
          \<and> (awaiting st' \<noteq> Some s \<longrightarrow> status (heap st' ! s) = Completed)"
    using c aw by (auto simp: core_def tr len nth)
  have 6: "\<forall>s\<in>set (started (trace st')). \<forall>p\<in>set (fileQueue st'). pending st' p \<longrightarrow> s < p"
    using c pend' by (auto simp: core_def tr q)
  show ?thesis
    unfolding core_def using 1 2 3 4 5 6 by blast
qed

lemma core_cong:
  assumes "core st" and "heap st' = heap st" and "fileQueue st' = fileQueue st"
    and "awaiting st' = awaiting st" and "started (trace st') = started (trace st)"
  shows "core st'"
  using assms by (simp add: core_def pending_def)

lemma core_timeout:
  assumes c: "core st" and h: "heap st' = heap st" and q: "fileQueue st' = []"
    and aw: "awaiting st' = awaiting st" and tr: "started (trace st') = started (trace st)"
  shows "core st'"
proof -
  have "\<exists>b\<le>length (heap st'). fileQueue st' = [b..<length (heap st')]"
    by (rule exI [of _ "length (heap st')"]) (simp add: q)
  then show ?thesis
    using c by (simp add: core_def h q aw tr)
qed

lemma core_push: "core st \<Longrightarrow> core (push_files files st)"
proof -
  assume c: "core st"
  let ?st' = "push_files files st"
  let ?n = "length (heap st)"
  from c obtain b where b: "b \<le> ?n" "fileQueue st = [b..<?n]"
    by (auto simp: core_def)
  have h: "heap ?st' = heap st @ map (\<lambda>f. \<lparr>file' = f, status = Pending, result = None\<rparr>) files"
    and q: "fileQueue ?st' = [b..<?n + length files]"
    and aw: "awaiting ?st' = awaiting st" and tr: "trace ?st' = trace st"
    using b by (simp_all add: push_files_def upt_add_eq_append [symmetric])
  have len: "length (heap ?st') = ?n + length files" by (simp add: h)
  have old: "\<And>x. x < ?n \<Longrightarrow> heap ?st' ! x = heap st ! x"
    by (simp add: h nth_append)
  have new: "\<And>x. ?n \<le> x \<Longrightarrow> x < ?n + length files \<Longrightarrow> status (heap ?st' ! x) = Pending"
    by (simp add: h nth_append)
  have 1: "\<exists>b\<le>length (heap ?st'). fileQueue ?st' = [b..<length (heap ?st')]"
    using b(1) by (intro exI [of _ b]) (simp add: q len)
  have 2: "\<forall>x<length (heap ?st'). (status (heap ?st' ! x) = Processing) = (awaiting ?st' = Some x)"
  proof (intro allI impI)
    fix x assume "x < length (heap ?st')"
    show "(status (heap ?st' ! x) = Processing) = (awaiting ?st' = Some x)"
    proof (cases "x < ?n")
      case True
      with c show ?thesis by (simp add: old aw core_def)
    next
      case False
      with \<open>x < length (heap ?st')\<close> have "status (heap ?st' ! x) = Pending"
        by (simp add: new len)
      moreover from c False have "awaiting st \<noteq> Some x" by (auto simp: core_def)
      ultimately show ?thesis by (simp add: aw)
    qed
  qed
  have 3: "\<forall>x. awaiting ?st' = Some x \<longrightarrow> x < length (heap ?st')"
    using c by (auto simp: core_def aw len)
  have 4: "sorted_wrt (<) (started (trace ?st'))"
    using c by (simp add: core_def tr)
  have 5: "\<forall>s\<in>set (started (trace ?st')). s < length (heap ?st') \<and> status (heap ?st' ! s) \<noteq> Pending
          \<and> (awaiting ?st' \<noteq> Some s \<longrightarrow> status (heap ?st' ! s) = Completed)"
    using c by (auto simp: core_def tr len aw old)
  have 6: "\<forall>s\<in>set (started (trace ?st')). \<forall>p\<in>set (fileQueue ?st'). pending ?st' p \<longrightarrow> s < p"
  proof (intro ballI impI)
    fix s p assume s: "s \<in> set (started (trace ?st'))" and p: "p \<in> set (fileQueue ?st')"
      and pp: "pending ?st' p"
    from s c have sn: "s < ?n" by (auto simp: core_def tr)
    show "s < p"
    proof (cases "p < ?n")
      case True
      with pp have "pending st p" by (simp add: pending_def old)
      moreover from p True have "p \<in> set (fileQueue st)" by (simp add: q b(2))
      ultimately show ?thesis using c s by (auto simp: core_def tr)
    next
      case False
      with sn show ?thesis by simp
    qed
  qed
  show "core ?st'"
    unfolding core_def using 1 2 3 4 5 6 by blast
qed

lemma set_status_fields [simp]:
  "heap (set_status a s st) = (heap st)[a := (heap st ! a)\<lparr>status := s\<rparr>]"
  "fileQueue (set_status a s st) = fileQueue st"
  "awaiting (set_status a s st) = awaiting st"
  "trace (set_status a s st) = trace st"
  "isProcessingQueue (set_status a s st) = isProcessingQueue st"
  "parsedChecksums (set_status a s st) = parsedChecksums st"
  "verifiedFiles (set_status a s st) = verifiedFiles st"
  by (simp_all add: set_status_def)

lemma start_job_fields [simp]:
  "heap (start_job a st) = (heap st)[a := (heap st ! a)\<lparr>status := Processing\<rparr>]"
  "fileQueue (start_job a st) = fileQueue st"
  "awaiting (start_job a st) = awaiting st"
  "trace (start_job a st) = trace st @ [JobStarted a]"
  "isProcessingQueue (start_job a st) = isProcessingQueue st"
  "parsedChecksums (start_job a st) = parsedChecksums st"
  "verifiedFiles (start_job a st) = verifiedFiles st"
  by (simp_all add: start_job_def set_status_def)

lemma verify_begin_fields [simp]:
  "heap (verify_begin f st) = heap st"
  "fileQueue (verify_begin f st) = fileQueue st"
  "awaiting (verify_begin f st) = awaiting st"
  "trace (verify_begin f st) = trace st"
  "isProcessingQueue (verify_begin f st) = isProcessingQueue st"
  "parsedChecksums (verify_begin f st) = parsedChecksums st"
  "verifiedFiles (verify_begin f st) = verifiedFiles st"
  by (simp_all add: verify_begin_def)

lemma verify_settle_fields [simp]:
  "heap (verify_settle f r st) = heap st"
  "fileQueue (verify_settle f r st) = fileQueue st"
  "awaiting (verify_settle f r st) = awaiting st"
  "trace (verify_settle f r st) = trace st"
  "isProcessingQueue (verify_settle f r st) = isProcessingQueue st"
  "parsedChecksums (verify_settle f r st) = parsedChecksums st"
  by (simp_all add: verify_settle_def Let_def split: sum.splits report.splits)

lemma queue_done_fields [simp]:
  "heap (queue_done st) = heap st"
  "fileQueue (queue_done st) = fileQueue st"
  "awaiting (queue_done st) = awaiting st"
  "trace (queue_done st) = trace st"
  "isProcessingQueue (queue_done st) = False"
  "parsedChecksums (queue_done st) = parsedChecksums st"
  "verifiedFiles (queue_done st) = verifiedFiles st"
  by (simp_all add: queue_done_def)

lemma queue_loop_inv:
  "core st \<Longrightarrow> awaiting st = None \<Longrightarrow> isProcessingQueue st \<Longrightarrow>
   core (queue_loop st) \<and> (isProcessingQueue (queue_loop st) = (awaiting (queue_loop st) \<noteq> None))"
proof (induction st rule: queue_loop.induct)
  case (1 st)
  show ?case
  proof (cases "find (pending st) (fileQueue st)")
    case None
    then have "queue_loop st = queue_done st"
      by (subst queue_loop.simps) simp
    moreover have "core (queue_done st)"
      using "1.prems"(1) by (rule core_cong) simp_all
    ultimately show ?thesis using "1.prems"(2) by simp
  next
    case (Some a)
    then have ne: "fileQueue st \<noteq> []" by auto
    define f where "f = file' (heap st ! a)"
    define st1 where "st1 = verify_begin f (start_job a st)"
    define mid where "mid = (start_job a st)\<lparr>awaiting := Some a\<rparr>"
    have cmid: "core mid"
      using "1.prems"(1,2) Some by (rule core_start) (simp_all add: mid_def)
    show ?thesis
    proof (cases "parsedChecksums st1 = []")
      case True
      define st' where "st' = set_status a Completed (verify_settle f (Inl TypeError) st1)"
      have eq: "queue_loop st = queue_loop st'"
        using Some ne True by (subst queue_loop.simps) (simp add: st'_def st1_def f_def Let_def)
      have "core st'"
        using cmid by (rule core_finish [where a = a]) (simp_all add: mid_def st'_def st1_def "1.prems"(2))
      moreover have "awaiting st' = None" "isProcessingQueue st'"
        using "1.prems"(2,3) by (simp_all add: st'_def st1_def)
      ultimately show ?thesis
        using "1.IH" [OF ne Some f_def st1_def True] by (simp add: eq st'_def)
    next
      case False
      define st' where "st' = st1\<lparr>awaiting := Some a, trace := trace st1 @ [HashStarted a]\<rparr>"
      have eq: "queue_loop st = st'"
        using Some ne False by (subst queue_loop.simps) (simp add: st'_def st1_def f_def Let_def)
      have "core st'"
        using cmid by (rule core_cong) (simp_all add: mid_def st'_def st1_def)
      then show ?thesis
        using "1.prems"(3) by (simp add: eq) (simp add: st'_def st1_def)
    qed
  qed
qed

lemma push_files_fields [simp]:
  "heap (push_files files st) = heap st @ map (\<lambda>f. \<lparr>file' = f, status = Pending, result = None\<rparr>) files"
  "fileQueue (push_files files st) = fileQueue st @ [length (heap st)..<length (heap st) + length files]"
  "awaiting (push_files files st) = awaiting st"
  "trace (push_files files st) = trace st"
  "isProcessingQueue (push_files files st) = isProcessingQueue st"
  "parsedChecksums (push_files files st) = parsedChecksums st"
  "verifiedFiles (push_files files st) = verifiedFiles st"
  by (simp_all add: push_files_def)

lemma queue_inv_cong:
  assumes "queue_inv st" and "heap st' = heap st" and "fileQueue st' = fileQueue st"
    and "awaiting st' = awaiting st" and "started (trace st') = started (trace st)"
    and "isProcessingQueue st' = isProcessingQueue st"
  shows "queue_inv st'"
  using assms core_cong [of st st'] by (simp add: queue_inv_def)

lemma queue_inv_enqueue:
  assumes i: "queue_inv st"
  shows "queue_inv (enqueue files st)"
proof -
  from i have c: "core (push_files files st)" by (simp add: queue_inv_def core_push)
  show ?thesis
  proof (cases "isProcessingQueue st")
    case True
    with i c show ?thesis by (simp add: enqueue_def Let_def queue_inv_def)
  next
    case False
    let ?st1 = "(push_files files st)\<lparr>isProcessingQueue := True\<rparr>"
    have "core ?st1" using c by (rule core_cong) simp_all
    moreover have "awaiting ?st1 = None" "isProcessingQueue ?st1"
      using i False by (simp_all add: queue_inv_def)
    ultimately have "queue_inv (queue_loop ?st1)"
      unfolding queue_inv_def by (rule queue_loop_inv)
    with False show ?thesis by (simp add: enqueue_def Let_def processQueue_def)
  qed
qed

lemma own_lookup: "own m k = (map_of m k \<noteq> None)"
  by (simp add: own_def map_of_eq_None_iff)

lemma hasOwnProperty_eq:
  "hasOwnProperty m k = (if own m ''hasOwnProperty'' then Inl TypeError else Inr (own m k))"
  by (auto simp: hasOwnProperty_def obj_get_def own_lookup objectPrototype_def
      split: option.splits)

lemma not_in_list_eq:
  "not_in_list m files =
     (if own m ''hasOwnProperty'' \<and> files \<noteq> [] then Inl TypeError
      else Inr (filter (\<lambda>f. \<not> own m (name f)) files))"
  by (induction files) (simp_all add: hasOwnProperty_eq)

lemma upload_throws:
  assumes "files \<noteq> []" and "parsedChecksums st \<noteq> []"
    and "own (parsedChecksums st) ''hasOwnProperty''"
  shows "handleChecksumFileUpload files ans st = Inl TypeError"
  using assms by (simp add: handleChecksumFileUpload_def not_in_list_eq)

lemma upload_eq:
  assumes "files \<noteq> []" and "parsedChecksums st \<noteq> []"
    and "\<not> own (parsedChecksums st) ''hasOwnProperty''"
  shows "handleChecksumFileUpload files ans st =
     Inr (if \<forall>f\<in>set files. \<not> own (parsedChecksums st) (name f)
          then (if ans
                then enqueue files (st\<lparr>trace := trace st @ [AskedConfirm (map name files)]\<rparr>)
                else st\<lparr>trace := trace st @ [AskedConfirm (map name files)]\<rparr>)
          else enqueue files st)"
proof (cases "\<forall>f\<in>set files. \<not> own (parsedChecksums st) (name f)")
  case True
  then have "filter (\<lambda>f. \<not> own (parsedChecksums st) (name f)) files = files"
    by (simp add: filter_id_conv)
  with True assms show ?thesis
    by (simp add: handleChecksumFileUpload_def not_in_list_eq Let_def)
next
  case False
  then obtain f where "f \<in> set files" "own (parsedChecksums st) (name f)"
    by blast
  then have "length (filter (\<lambda>f. \<not> own (parsedChecksums st) (name f)) files) < length files"
    by (intro length_filter_less [where x = f]) simp_all
  then have "handleChecksumFileUpload files ans st = Inr (enqueue files st)"
    using assms by (simp add: handleChecksumFileUpload_def not_in_list_eq Let_def)
  with False show ?thesis by (simp only: if_False)
qed

lemma queue_inv_upload:
  assumes i: "queue_inv st"
  shows "queue_inv (step (Upload files ans) st)"
proof -
  have a: "queue_inv (st\<lparr>panel := Some NoChecksumsLoaded, panelVisible := True\<rparr>)"
    using i by (rule queue_inv_cong) simp_all
  have b: "queue_inv (st\<lparr>trace := trace st @ [AskedConfirm ns]\<rparr>)" for ns
    using i by (rule queue_inv_cong) simp_all
  consider "files = []" | "files \<noteq> []" "parsedChecksums st = []"
    | "files \<noteq> []" "parsedChecksums st \<noteq> []" "own (parsedChecksums st) ''hasOwnProperty''"
    | "files \<noteq> []" "parsedChecksums st \<noteq> []" "\<not> own (parsedChecksums st) ''hasOwnProperty''"
    by blast
  then show ?thesis
  proof cases
    case 1
    with i show ?thesis by (simp add: handleChecksumFileUpload_def)
  next
    case 2
    with a show ?thesis by (simp add: handleChecksumFileUpload_def)
  next
    case 3
    with i show ?thesis by (simp add: upload_throws)
  next
    case 4
    with i b show ?thesis by (simp add: upload_eq queue_inv_enqueue)
  qed
qed

lemma queue_inv_settle:
  assumes i: "queue_inv st"
  shows "queue_inv (settle r st)"
proof (cases "awaiting st")
  case None
  with i show ?thesis by (simp add: settle_def)
next
  case (Some a)
  let ?st1 = "set_status a Completed (verify_settle (file' (heap st ! a)) r (st\<lparr>awaiting := None\<rparr>))"
  from i have c: "core st" by (simp add: queue_inv_def)
  have "core ?st1"
    using c Some by (rule core_finish) simp_all
  moreover have "awaiting ?st1 = None" "isProcessingQueue ?st1"
    using i Some by (simp_all add: queue_inv_def)
  ultimately have "queue_inv (queue_loop ?st1)"
    unfolding queue_inv_def by (rule queue_loop_inv)
  with Some show ?thesis by (simp add: settle_def)
qed

lemma queue_inv_stop:
  assumes i: "queue_inv st"
  shows "queue_inv (stopChecksumVerification st)"
proof (cases "isVerifying st")
  case True
  have "queue_inv (st\<lparr>verificationAborted := True\<rparr>)"
    using i by (rule queue_inv_cong) simp_all
  with True show ?thesis by (simp add: stopChecksumVerification_def)
next
  case False
  with i show ?thesis by (simp add: stopChecksumVerification_def)
qed

lemma queue_inv_timeout:
  assumes i: "queue_inv st"
  shows "queue_inv (timeout st)"
proof (cases "timers st = 0")
  case True
  with i show ?thesis by (simp add: timeout_def)
next
  case False
  from i have c: "core st" by (simp add: queue_inv_def)
  have "core (st\<lparr>fileQueue := [], timers := timers st - 1\<rparr>)"
    using c by (rule core_timeout) simp_all
  with i False show ?thesis by (simp add: timeout_def queue_inv_def)
qed

lemma queue_inv_show:
  assumes i: "queue_inv st"
  shows "queue_inv (showChecksumSection c st)"
  using i by (rule queue_inv_cong) (simp_all add: showChecksumSection_def Let_def)

lemma queue_inv_hide:
  assumes i: "queue_inv st"
  shows "queue_inv (hideChecksumSection st)"
  using i by (rule queue_inv_cong) (simp_all add: hideChecksumSection_def)

lemma queue_inv_step: "queue_inv st \<Longrightarrow> queue_inv (step e st)"
  by (cases e)
    (simp_all add: queue_inv_upload queue_inv_settle queue_inv_stop queue_inv_timeout
      queue_inv_show queue_inv_hide del: step.simps(1))

lemma queue_inv_run: "queue_inv st \<Longrightarrow> queue_inv (run evs st)"
  unfolding run_def by (induction evs arbitrary: st) (simp_all add: queue_inv_step)

lemma idle_fields [simp]:
  "parsedChecksums (idle m) = m"
  "heap (idle m) = []"
  "fileQueue (idle m) = []"
  "trace (idle m) = []"
  by (simp_all add: idle_def)

lemma queue_inv_idle: "queue_inv (idle m)"
  by (simp add: queue_inv_def core_def idle_def)

lemma set_status_files [simp]: "map file' (heap (set_status a s st)) = map file' (heap st)"
proof (cases "a < length (heap st)")
  case True
  then show ?thesis by (simp add: map_update list_update_same_conv)
next
  case False
  then show ?thesis by (simp add: list_update_beyond)
qed

lemma start_job_files [simp]: "map file' (heap (start_job a st)) = map file' (heap st)"
proof (cases "a < length (heap st)")
  case True
  then show ?thesis by (simp add: map_update list_update_same_conv)
next
  case False
  then show ?thesis by (simp add: list_update_beyond)
qed

lemma queue_loop_fileQueue [simp]: "fileQueue (queue_loop st) = fileQueue st"
proof (induction st rule: queue_loop.induct)
  case (1 st)
  then show ?case
    by (subst queue_loop.simps) (simp add: Let_def split: option.splits)
qed

lemma queue_loop_files [simp]: "map file' (heap (queue_loop st)) = map file' (heap st)"
proof (induction st rule: queue_loop.induct)
  case (1 st)
  then show ?case
    by (subst queue_loop.simps) (simp add: Let_def split: option.splits del: set_status_fields(1) start_job_fields(1))
qed

lemma queue_loop_length [simp]: "length (heap (queue_loop st)) = length (heap st)"
  using queue_loop_files [of st] by (metis length_map)

lemma queue_loop_trace:
  "\<exists>rest. trace (queue_loop st) = trace st @ rest \<and> filter is_confirm rest = []"
proof (induction st rule: queue_loop.induct)
  case (1 st)
  show ?case
  proof (cases "find (pending st) (fileQueue st)")
    case None
    then show ?thesis by (subst queue_loop.simps) simp
  next
    case (Some a)
    then have ne: "fileQueue st \<noteq> []" by auto
    define f where "f = file' (heap st ! a)"
    define st1 where "st1 = verify_begin f (start_job a st)"
    show ?thesis
    proof (cases "parsedChecksums st1 = []")
      case True
      define st' where "st' = set_status a Completed (verify_settle f (Inl TypeError) st1)"
      have eq: "queue_loop st = queue_loop st'"
        using Some ne True by (subst queue_loop.simps) (simp add: st'_def st1_def f_def Let_def)
      from "1.IH" [OF ne Some f_def st1_def True]
      obtain rest where "trace (queue_loop st') = trace st' @ rest" "filter is_confirm rest = []"
        by (auto simp: st'_def)
      then have "trace (queue_loop st) = trace st @ (JobStarted a # rest)
          \<and> filter is_confirm (JobStarted a # rest) = []"
        by (simp add: eq st'_def st1_def)
      then show ?thesis by blast
    next
      case False
      have "trace (queue_loop st) = trace st @ [JobStarted a, HashStarted a]"
        using Some ne False by (subst queue_loop.simps) (simp add: st1_def f_def Let_def)
      then show ?thesis by simp
    qed
  qed
qed

lemma enqueue_shape:
  "fileQueue (enqueue files st) = fileQueue st @ [length (heap st)..<length (heap st) + length files]
   \<and> map file' (heap (enqueue files st)) = map file' (heap st) @ files
   \<and> (\<exists>rest. trace (enqueue files st) = trace st @ rest \<and> filter is_confirm rest = [])"
proof (cases "isProcessingQueue st")
  case True
  then show ?thesis by (simp add: enqueue_def Let_def comp_def)
next
  case False
  let ?st1 = "(push_files files st)\<lparr>isProcessingQueue := True\<rparr>"
  from queue_loop_trace [of ?st1]
  obtain rest where "trace (queue_loop ?st1) = trace st @ rest" "filter is_confirm rest = []"
    by auto
  with False show ?thesis
    by (simp add: enqueue_def Let_def processQueue_def comp_def)
qed

lemma queue_loop_loaded:
  assumes "parsedChecksums st \<noteq> []"
  shows "queue_loop st =
     (case find (pending st) (fileQueue st) of
        None \<Rightarrow> queue_done st
      | Some a \<Rightarrow>
          (let st1 = verify_begin (file' (heap st ! a)) (start_job a st)
           in st1\<lparr>awaiting := Some a, trace := trace st1 @ [HashStarted a]\<rparr>))"
  using assms by (subst queue_loop.simps) (simp add: Let_def split: option.splits)

lemma enqueue_jobs:
  assumes m: "parsedChecksums st \<noteq> []" and i: "i < length files"
  shows "result (heap (enqueue files st) ! (length (heap st) + i)) = None
       \<and> (status (heap (enqueue files st) ! (length (heap st) + i)) = Pending
          \<or> status (heap (enqueue files st) ! (length (heap st) + i)) = Processing
            \<and> awaiting (enqueue files st) = Some (length (heap st) + i))"
proof (cases "isProcessingQueue st")
  case True
  with i show ?thesis by (simp add: enqueue_def Let_def nth_append)
next
  case False
  let ?st1 = "(push_files files st)\<lparr>isProcessingQueue := True\<rparr>"
  have e: "enqueue files st = queue_loop ?st1"
    using False by (simp add: enqueue_def Let_def processQueue_def)
  have j: "heap ?st1 ! (length (heap st) + i) = \<lparr>file' = files ! i, status = Pending, result = None\<rparr>"
    using i by (simp add: nth_append)
  have l: "length (heap st) + i < length (heap ?st1)"
    using i by simp
  show ?thesis
  proof (cases "find (pending ?st1) (fileQueue ?st1)")
    case None
    with m have "queue_loop ?st1 = queue_done ?st1"
      by (simp add: queue_loop_loaded)
    then show ?thesis
      using j by (simp add: e queue_done_def)
  next
    case (Some a)
    with m have h: "heap (queue_loop ?st1) = (heap ?st1)[a := (heap ?st1 ! a)\<lparr>status := Processing\<rparr>]"
      and w: "awaiting (queue_loop ?st1) = Some a"
      by (simp_all add: queue_loop_loaded Let_def)
    show ?thesis
    proof (cases "a = length (heap st) + i")
      case True
      with l j show ?thesis
        unfolding e h w by (simp del: push_files_fields)
    next
      case False
      with j show ?thesis
        unfolding e h by (simp del: push_files_fields)
    qed
  qed
qed

lemma count_processing:
  assumes "\<forall>a<length h. (status (h ! a) = Processing) = (aw = Some a)"
  shows "length (filter (\<lambda>j. status j = Processing) h) \<le> 1"
proof -
  have "{i. i < length h \<and> status (h ! i) = Processing} \<subseteq> set_option aw"
    using assms by auto
  then have "card {i. i < length h \<and> status (h ! i) = Processing} \<le> card (set_option aw)"
    by (intro card_mono) simp_all
  also have "\<dots> \<le> 1" by (cases aw) simp_all
  finally show ?thesis by (simp add: length_filter_conv_card)
qed


lemma events_a_started: "started (trace (run events_a (idle manifest_a))) = [0, 1]"
  by code_simp

lemma events_a_queue: "fileQueue (run events_a (idle manifest_a)) = [0, 1, 2]"
  by code_simp

lemma events_a_status:
  "map status (heap (run events_a (idle manifest_a))) = [Completed, Processing, Pending]"
  by code_simp

lemma events_a_checksums: "parsedChecksums (run events_a (idle manifest_a)) = manifest_a"
  by code_simp

lemma events_a_pending: "pending (run events_a (idle manifest_a)) 2"
  by code_simp


section \<open>The gate on file names\<close>

text \<open>
  A line for a file named \<^verbatim>\<open>__proto__\<close> stores nothing, one for a file named
  \<^verbatim>\<open>constructor\<close> stores an entry as any other line does.
\<close>

lemma inherited_names_parsed:
  "parseChecksums (empty_digest @ ''  __proto__'') = []
   \<and> parseChecksums (empty_digest @ ''  constructor'') = [(''constructor'', empty_digest)]"
  by code_simp

text \<open>
  C5. Some checksum is loaded and no file of a batch (not empty) has its name in the
  list. Then the first thing \<^verbatim>\<open>handleChecksumFileUpload\<close> does is to ask for
  confirmation, before any job is started or hash computed; and when the user declines,
  nothing but the dialog happened: no job is added, none is started, nothing is hashed.
  The one exception is a list with an entry of the name \<^verbatim>\<open>hasOwnProperty\<close>: there the
  handler throws before the dialog, whatever the user would answer, and nothing is added,
  started or hashed either.
\<close>

theorem C5_confirmation_gate:
  assumes "files \<noteq> []" and "parsedChecksums st \<noteq> []"
    and "\<forall>f\<in>set files. \<not> own (parsedChecksums st) (name f)"
  shows "if own (parsedChecksums st) ''hasOwnProperty''
         then handleChecksumFileUpload files userConfirmed st = Inl TypeError
            \<and> step (Upload files userConfirmed) st = st
         else handleChecksumFileUpload files False st
                = Inr (st\<lparr>trace := trace st @ [AskedConfirm (map name files)]\<rparr>)
            \<and> (\<exists>st' rest. handleChecksumFileUpload files True st = Inr st'
                  \<and> trace st' = trace st @ AskedConfirm (map name files) # rest)"
proof (cases "own (parsedChecksums st) ''hasOwnProperty''")
  case True
  with assms(1,2) show ?thesis by (simp add: upload_throws)
next
  case False
  let ?st1 = "st\<lparr>trace := trace st @ [AskedConfirm (map name files)]\<rparr>"
  from enqueue_shape [of files ?st1]
  obtain rest where "trace (enqueue files ?st1) = trace ?st1 @ rest" by blast
  with False assms show ?thesis by (simp add: upload_eq)
qed

theorem C5_confirmation_gate_witness:
  "handleChecksumFileUpload [file_b] False (idle manifest_a)
     = Inr ((idle manifest_a)\<lparr>trace := [AskedConfirm [''b.iso'']]\<rparr>)
   \<and> (\<exists>st'. handleChecksumFileUpload [file_b] True (idle manifest_a) = Inr st'
        \<and> trace st' = [AskedConfirm [''b.iso''], JobStarted 0, HashStarted 0])
   \<and> handleChecksumFileUpload [file_b] True (idle manifest_h) = Inl TypeError
   \<and> step (Upload [file_b] True) (idle manifest_h) = idle manifest_h"
proof -
  have a: "[file_b] \<noteq> []" "parsedChecksums (idle manifest_a) \<noteq> []"
    by (simp_all add: idle_def manifest_a_def)
  have b: "\<forall>f\<in>set [file_b]. \<not> own (parsedChecksums (idle manifest_a)) (name f)"
    by (simp add: idle_def manifest_a_def file_b_def own_def)
  have n: "\<not> own (parsedChecksums (idle manifest_a)) ''hasOwnProperty''"
    by (simp add: idle_def manifest_a_def own_def)
  have a': "parsedChecksums (idle manifest_h) \<noteq> []"
    by (simp add: idle_def manifest_h_def)
  have b': "\<forall>f\<in>set [file_b]. \<not> own (parsedChecksums (idle manifest_h)) (name f)"
    by (simp add: idle_def manifest_h_def file_b_def own_def)
  have y: "own (parsedChecksums (idle manifest_h)) ''hasOwnProperty''"
    by (simp add: idle_def manifest_h_def own_def)
  have c: "trace (enqueue [file_b] ((idle manifest_a)\<lparr>trace := [AskedConfirm [''b.iso'']]\<rparr>))
       = [AskedConfirm [''b.iso''], JobStarted 0, HashStarted 0]"
    by code_simp
  have d: "handleChecksumFileUpload [file_b] True (idle manifest_a)
       = Inr (enqueue [file_b] ((idle manifest_a)\<lparr>trace := [AskedConfirm [''b.iso'']]\<rparr>))"
    using a b n by (simp add: upload_eq) (simp add: idle_def file_b_def)
  from C5_confirmation_gate [OF a b, of True] n
  have 1: "handleChecksumFileUpload [file_b] False (idle manifest_a)
     = Inr ((idle manifest_a)\<lparr>trace := [AskedConfirm [''b.iso'']]\<rparr>)"
    by (simp add: idle_def file_b_def)
  from C5_confirmation_gate [OF a(1) a' b', of True] y
  have 2: "handleChecksumFileUpload [file_b] True (idle manifest_h) = Inl TypeError
     \<and> step (Upload [file_b] True) (idle manifest_h) = idle manifest_h"
    by (simp del: step.simps)
  show ?thesis
    using 1 2 c d by (simp del: step.simps)
qed

text \<open>
  C10. A batch with one file at least named in the list should be queued whole, with
  no confirmation. A list with an entry for a file named \<^verbatim>\<open>hasOwnProperty\<close> and one for
  \<^verbatim>\<open>a.iso\<close> is shown and parsed, and the file \<^verbatim>\<open>a.iso\<close> is chosen: its name is in the
  list, yet the handler throws at the test of the names, whatever the user would answer,
  and the file is not queued. With the entry \<^verbatim>\<open>a.iso\<close> alone the same file is queued
  and its job started.
\<close>

theorem C10_listed_file_not_queued:
  "parsedChecksums (step (ShowSection list_h) (idle [])) = manifest_h
   \<and> own manifest_h (name file_a)
   \<and> handleChecksumFileUpload [file_a] userConfirmed (step (ShowSection list_h) (idle []))
       = Inl TypeError
   \<and> step (Upload [file_a] userConfirmed) (step (ShowSection list_h) (idle []))
       = step (ShowSection list_h) (idle [])
   \<and> fileQueue (step (Upload [file_a] userConfirmed) (step (ShowSection list_h) (idle []))) = []
   \<and> fileQueue (step (Upload [file_a] userConfirmed) (idle manifest_a)) = [0]"
proof -
  have p: "parseChecksums list_h = manifest_h"
    by code_simp
  have t: "containsChecksums list_h"
    by code_simp
  have s: "parsedChecksums (step (ShowSection list_h) (idle [])) = manifest_h"
    using t by (simp add: showChecksumSection_def Let_def p)
  have o: "own manifest_h (name file_a)" "own manifest_h ''hasOwnProperty''"
    "manifest_h \<noteq> []"
    by (simp_all add: own_def manifest_h_def file_a_def)
  have q: "fileQueue (step (ShowSection list_h) (idle [])) = []"
    by (simp add: showChecksumSection_def Let_def idle_def)
  have e: "handleChecksumFileUpload [file_a] userConfirmed (step (ShowSection list_h) (idle []))
       = Inl TypeError"
    by (rule upload_throws) (simp_all only: s o list.simps not_False_eq_True)
  have a: "own manifest_a (name file_a)" "\<not> own manifest_a ''hasOwnProperty''"
    "manifest_a \<noteq> []"
    by (simp_all add: own_def manifest_a_def file_a_def)
  have "handleChecksumFileUpload [file_a] userConfirmed (idle manifest_a)
      = Inr (enqueue [file_a] (idle manifest_a))"
    using a by (simp add: upload_eq)
  then have g: "fileQueue (step (Upload [file_a] userConfirmed) (idle manifest_a)) = [0]"
    using enqueue_shape [of "[file_a]" "idle manifest_a"] by simp
  show ?thesis
    using s o(1) e q g by simp
qed

section \<open>The digest computed\<close>

lemma stream_loop_digest:
  "stream_loop H stopAt t cs h = (t', Inr d) \<Longrightarrow> d = h_hex H (foldl (h_update H) h cs)"
  by (induction cs arbitrary: t h) (auto split: if_splits)

lemma wasm_loop_digest:
  "wasm_loop W stopAt t cs h p l = (t', Inr d) \<Longrightarrow> d = h_hex W (foldl (h_update W) h cs)"
  by (induction cs arbitrary: t h p l) (auto split: if_splits)

lemma slice_loop_digest:
  "slice_loop H stopAt f k i t h = (t', Inr d) \<Longrightarrow>
   d = h_hex H (foldl (h_update H) h (map (piece f) [i..<i + k]))"
proof (induction k arbitrary: i t h)
  case 0
  then show ?case by simp
next
  case (Suc k)
  from Suc.prems have na: "\<not> aborted stopAt t"
    by (auto split: if_splits)
  with Suc.prems have "slice_loop H stopAt f k (Suc i) (Suc t) (h_update H h (piece f i)) = (t', Inr d)"
    by (simp add: piece_def)
  from Suc.IH [OF this]
  have "d = h_hex H (foldl (h_update H) (h_update H h (piece f i)) (map (piece f) [Suc i..<Suc i + k]))" .
  moreover have "[i..<i + Suc k] = i # [Suc i..<Suc i + k]"
    by (simp add: upt_conv_Cons del: upt_Suc)
  ultimately show ?case
    by (simp del: upt_Suc)
qed

lemma concat_pieces_take:
  "concat (map (piece f) [0..<k]) = take (k * chunkSize) (content f)"
proof (induction k)
  case 0
  then show ?case by simp
next
  case (Suc k)
  have "piece f k = take chunkSize (drop (k * chunkSize) (content f))"
    by (simp add: piece_def slice_def fsize_def min_def)
  moreover have "take (Suc k * chunkSize) (content f)
      = take (k * chunkSize) (content f) @ take chunkSize (drop (k * chunkSize) (content f))"
    by (metis add.commute mult_Suc take_add)
  ultimately show ?case
    using Suc by simp
qed

lemma chunkCount_covers: "fsize f \<le> chunkCount f * chunkSize"
proof -
  have c: "0 < chunkSize" by (simp add: chunkSize_def)
  have "fsize f + chunkSize - 1 < (fsize f + chunkSize - 1) div chunkSize * chunkSize + chunkSize"
    using c by (metis add.commute dividend_less_div_times mult.commute)
  then show ?thesis
    using c by (simp add: chunkCount_def)
qed

lemma concat_pieces: "concat (map (piece f) [0..<chunkCount f]) = content f"
  using chunkCount_covers [of f] by (simp add: concat_pieces_take fsize_def)

lemma stream_digest:
  assumes "\<And>J. sha256 L = Some J \<Longrightarrow> implements J sha"
    and "calculateHashWithFileStream L f stopAt t = (t', Inr d)"
  shows "d = sha (content f)"
proof (cases "sha256 L")
  case None
  with assms(2) show ?thesis by (simp add: calculateHashWithFileStream_def)
next
  case (Some J)
  with assms(2) obtain h0 where h0: "h_create J = Some h0"
    and r: "stream_loop J stopAt t (chunks f) h0 = (t', Inr d)"
    by (auto simp: calculateHashWithFileStream_def split: option.splits)
  from assms(1) [OF Some] h0 have "h_hex J (foldl (h_update J) h0 (chunks f)) = sha (concat (chunks f))"
    unfolding implements_def by blast
  with stream_loop_digest [OF r] show ?thesis by (simp add: content_def)
qed

lemma slices_digest:
  assumes "implements H sha" and "h_create H = Some h0"
    and "slice_loop H stopAt f (chunkCount f) 0 t h0 = (t', Inr d)"
  shows "d = sha (content f)"
proof -
  from assms(1,2) have "h_hex H (foldl (h_update H) h0 (map (piece f) [0..<chunkCount f]))
      = sha (concat (map (piece f) [0..<chunkCount f]))"
    unfolding implements_def by blast
  with slice_loop_digest [OF assms(3)] show ?thesis by (simp add: concat_pieces)
qed

lemma streaming_digest:
  assumes "\<And>J. sha256 L = Some J \<Longrightarrow> implements J sha"
    and "calculateHashStreaming L f stopAt t = (t', Inr d)"
  shows "d = sha (content f)"
proof (cases "sha256 L")
  case None
  with assms(2) show ?thesis by (simp add: calculateHashStreaming_def)
next
  case (Some J)
  with assms(2) obtain h0 where h0: "h_create J = Some h0"
    and r: "slice_loop J stopAt f (chunkCount f) 0 t h0 = (t', Inr d)"
    by (auto simp: calculateHashStreaming_def split: option.splits)
  from slices_digest [OF assms(1) [OF Some] h0 r] show ?thesis .
qed

lemma wasm_try_digest:
  assumes "implements W sha" and "wasm_try W f stopAt t = (t', Inr d)"
  shows "d = sha (content f)"
proof -
  from assms(2) obtain h0 where h0: "h_create W = Some h0"
    by (auto simp: wasm_try_def split: option.splits)
  show ?thesis
  proof (cases "has_stream f")
    case True
    with assms(2) h0 have r: "wasm_loop W stopAt (Suc t) (chunks f) h0 0 0 = (t', Inr d)"
      by (simp add: wasm_try_def)
    from assms(1) h0 have "h_hex W (foldl (h_update W) h0 (chunks f)) = sha (concat (chunks f))"
      unfolding implements_def by blast
    with wasm_loop_digest [OF r] show ?thesis by (simp add: content_def)
  next
    case False
    with assms(2) h0 have r: "slice_loop W stopAt f (chunkCount f) 0 (Suc t) h0 = (t', Inr d)"
      by (simp add: wasm_try_def)
    from slices_digest [OF assms(1) h0 r] show ?thesis .
  qed
qed

lemma calculateFileHash_digest:
  assumes w: "\<And>W. hashwasm L = Some W \<Longrightarrow> implements W sha"
    and j: "\<And>J. sha256 L = Some J \<Longrightarrow> implements J sha"
    and r: "calculateFileHash L f stopAt t = (t', Inr d)"
  shows "d = sha (content f)"
proof (cases "hashwasm L")
  case None
  with r j show ?thesis
    by (auto simp: calculateFileHash_def split: if_splits
        dest: stream_digest [rotated] streaming_digest [rotated])
next
  case (Some W)
  obtain t1 r1 where t1: "wasm_try W f stopAt t = (t1, r1)" by (cases "wasm_try W f stopAt t")
  show ?thesis
  proof (cases r1)
    case (Inr d1)
    with t1 r Some have "d1 = d" by (simp add: calculateFileHash_def calculateHashWASM_def)
    with wasm_try_digest [OF w [OF Some]] t1 Inr show ?thesis by simp
  next
    case (Inl e)
    with t1 r Some j show ?thesis
      by (auto simp: calculateFileHash_def calculateHashWASM_def split: if_splits
          dest: stream_digest [rotated] streaming_digest [rotated])
  qed
qed

lemma filename_mismatch_not_verified:
  "filename_mismatch m f d \<noteq> Inr (ChecksumVerified k alg h)"
  by (cases m) (auto simp: filename_mismatch_def)

lemma try_body_verified:
  assumes "try_body m f (Inr d) = Inr (ChecksumVerified k alg h)"
  shows "h = d \<and> (k, h) \<in> set m \<and> alg = getHashAlgorithm d"
proof (cases "find_match m f d")
  case None
  with assms show ?thesis
    by (simp add: try_body_def filename_mismatch_not_verified)
next
  case (Some p)
  obtain k' e where p: "p = (k', e)" by (cases p)
  from assms Some p have "k' = k \<and> e = Str d \<and> h = d \<and> alg = getHashAlgorithm d"
    by (auto simp: try_body_def filename_mismatch_not_verified split: if_splits)
  then have v: "k' = k" "e = Str d" "h = d" "alg = getHashAlgorithm d"
    by blast+
  have "(k', d) \<in> set m"
  proof (cases "by_name m f")
    case None
    with Some p v have "by_hash m d = Some (k', Str d)"
      by (simp add: find_match_def)
    then have "find (\<lambda>(filename, hash). hash = d) m = Some (k', d)"
      by (auto simp: by_hash_def)
    then show ?thesis
      by (auto simp: find_Some_iff dest: nth_mem)
  next
    case (Some q)
    with \<open>find_match m f d = Some p\<close> p v have "by_name m f = Some (k', Str d)"
      by (simp add: find_match_def)
    then have "map_of m k' = Some d"
      by (simp add: by_name_def obj_get_def Let_def split: option.splits if_splits)
    then show ?thesis by (rule map_of_SomeD)
  qed
  with v show ?thesis by simp
qed

text \<open>
  C9. Whatever the checksums loaded, the digest \<^verbatim>\<open>calculateFileHash\<close> returns is the
  one function of the file's content that both libraries implement, on every path
  (WebAssembly or js-sha256, stream or slices) and its hex string has the 64 characters
  of SHA-256; so an entry of the list that yields CHECKSUM VERIFIED has a digest of 64
  characters, never one of 32, 40 or 128, and the algorithm shown is SHA-256.
\<close>

theorem C9_digest_is_sha256:
  assumes w: "\<And>W. hashwasm L = Some W \<Longrightarrow> implements W sha"
    and j: "\<And>J. sha256 L = Some J \<Longrightarrow> implements J sha"
    and len: "\<And>b. length (sha b) = 64"
  shows "(\<forall>t d. calculateFileHash L f stopAt 0 = (t, Inr d)
            \<longrightarrow> d = sha (content f) \<and> length d = 64)
       \<and> (\<forall>k alg h. try_body m f (snd (calculateFileHash L f stopAt 0))
                       = Inr (ChecksumVerified k alg h)
            \<longrightarrow> (k, h) \<in> set m \<and> length h = 64 \<and> alg = ''SHA-256'')"
proof -
  have 1: "d = sha (content f) \<and> length d = 64" if "calculateFileHash L f stopAt 0 = (t, Inr d)" for t d
    using calculateFileHash_digest [OF w j that] len by simp
  have 2: "(k, h) \<in> set m \<and> length h = 64 \<and> alg = ''SHA-256''"
    if v: "try_body m f (snd (calculateFileHash L f stopAt 0)) = Inr (ChecksumVerified k alg h)"
    for k alg h
  proof -
    obtain t r where tr: "calculateFileHash L f stopAt 0 = (t, r)"
      by (cases "calculateFileHash L f stopAt 0")
    with v obtain d where d: "r = Inr d"
      by (cases r) (simp_all add: try_body_def)
    from v tr d have "try_body m f (Inr d) = Inr (ChecksumVerified k alg h)" by simp
    from try_body_verified [OF this]
    have e: "h = d" "(k, h) \<in> set m" "alg = getHashAlgorithm d" by blast+
    from tr d have "calculateFileHash L f stopAt 0 = (t, Inr d)" by simp
    from 1 [OF this] have "length d = 64" by blast
    with e show ?thesis by (simp add: getHashAlgorithm_def)
  qed
  from 1 2 show ?thesis by blast
qed

lemma stub_implements: "implements stub_hasher stub_sha"
proof -
  have "foldl (\<lambda>h c. h @ c) h0 cs = h0 @ concat cs" for h0 :: bytes and cs
    by (induction cs arbitrary: h0) simp_all
  then show ?thesis by (simp add: implements_def stub_hasher_def)
qed

lemma stub_sha_length: "length (stub_sha b) = 64"
  by (simp add: stub_sha_def empty_digest_def)

theorem C9_digest_is_sha256_witness:
  "calculateFileHash stub_libs file_a None 0 = (2, Inr empty_digest)
   \<and> length empty_digest = 64
   \<and> try_body manifest_a file_a (Inr empty_digest)
       = Inr (ChecksumVerified ''a.iso'' ''SHA-256'' empty_digest)
   \<and> try_body [(''a.iso'', ''d41d8cd98f00b204e9800998ecf8427e'')] file_a (Inr empty_digest)
       = Inr (ChecksumMismatch (Str ''d41d8cd98f00b204e9800998ecf8427e'') empty_digest)"
proof -
  have w: "\<And>W. hashwasm stub_libs = Some W \<Longrightarrow> implements W stub_sha"
    and j: "\<And>J. sha256 stub_libs = Some J \<Longrightarrow> implements J stub_sha"
    by (simp_all add: stub_libs_def stub_implements)
  have c: "calculateFileHash stub_libs file_a None 0 = (2, Inr empty_digest)"
    by (simp add: calculateFileHash_def calculateHashWASM_def wasm_try_def stub_libs_def
        stub_hasher_def stub_sha_def file_a_def)
  have t: "try_body manifest_a file_a (Inr empty_digest)
       = Inr (ChecksumVerified ''a.iso'' ''SHA-256'' empty_digest)"
    by (simp add: try_body_def find_match_def by_name_def obj_get_def truthy_def Let_def
        manifest_a_def file_a_def getHashAlgorithm_def empty_digest_def)
  have u: "try_body [(''a.iso'', ''d41d8cd98f00b204e9800998ecf8427e'')] file_a (Inr empty_digest)
       = Inr (ChecksumMismatch (Str ''d41d8cd98f00b204e9800998ecf8427e'') empty_digest)"
    by (simp add: try_body_def find_match_def by_name_def obj_get_def truthy_def Let_def
        file_a_def empty_digest_def)
  from C9_digest_is_sha256 [where L = stub_libs and sha = stub_sha and f = file_a
      and stopAt = None and m = manifest_a, OF w j stub_sha_length] c t u
  show ?thesis by simp
qed

section \<open>Cancelling a hash\<close>

lemma verify_settle_error [simp]:
  "verifiedFiles (verify_settle f (Inl e) st) = verifiedFiles st"
  by (simp add: verify_settle_def try_body_def)

lemma verify_settle_stopped:
  "verificationAborted st \<Longrightarrow> panel (verify_settle f (Inl e) st) = panel st"
  by (simp add: verify_settle_def try_body_def)

lemma stream_loop_stopped:
  "n \<le> t + length cs \<Longrightarrow> stream_loop H (Some n) t cs h = (max t n, Inl StoppedByUser)"
proof (induction cs arbitrary: t h)
  case Nil
  then show ?case by (simp add: aborted_def max_def)
next
  case (Cons c cs)
  show ?case
  proof (cases "n \<le> t")
    case True
    then show ?thesis by (simp add: aborted_def max_def)
  next
    case False
    with Cons.prems have "n \<le> Suc t + length cs" by simp
    from Cons.IH [OF this] False show ?thesis
      by (simp add: aborted_def max_def)
  qed
qed

text \<open>
  C6. A run of \<^verbatim>\<open>verifyFileChecksum\<close> whose hash computation does not complete,
  because the poll of the flag stopped it or for any other error, leaves
  \<^verbatim>\<open>verifiedFiles\<close> as it was. On the path through
  \<^verbatim>\<open>calculateHashWithFileStream\<close>, where the flag is polled before every read, this
  is every run in which Stop is pressed before the last read: the computation ends with
  the error of a stop, \<^verbatim>\<open>verifiedFiles\<close> is as before and nothing is written to the
  result panel.
\<close>

theorem C6_cancel_commits_nothing:
  "(snd (calculateFileHash L f stopAt 0) = Inl e
      \<longrightarrow> verifiedFiles (verifyFileChecksum L stopAt f st) = verifiedFiles st)
   \<and> (hashwasm L = None \<and> has_stream f \<and> sha256 L = Some J \<and> h_create J = Some h0
        \<and> n \<le> length (chunks f) \<and> parsedChecksums st \<noteq> []
      \<longrightarrow> snd (calculateFileHash L f (Some n) 0) = Inl StoppedByUser
          \<and> verifiedFiles (verifyFileChecksum L (Some n) f st) = verifiedFiles st
          \<and> panel (verifyFileChecksum L (Some n) f st) = panel st)"
proof -
  have 1: "verifiedFiles (verifyFileChecksum L stopAt f st) = verifiedFiles st"
    if hyp: "snd (calculateFileHash L f stopAt 0) = Inl e" for stopAt e
  proof -
    obtain t where "calculateFileHash L f stopAt 0 = (t, Inl e)"
      using hyp by (cases "calculateFileHash L f stopAt 0") auto
    then show ?thesis
      by (simp add: verifyFileChecksum_def Let_def verify_begin_def stopChecksumVerification_def)
  qed
  have 2: "snd (calculateFileHash L f (Some n) 0) = Inl StoppedByUser
          \<and> verifiedFiles (verifyFileChecksum L (Some n) f st) = verifiedFiles st
          \<and> panel (verifyFileChecksum L (Some n) f st) = panel st"
    if h: "hashwasm L = None" "has_stream f" "sha256 L = Some J" "h_create J = Some h0"
      "n \<le> length (chunks f)" "parsedChecksums st \<noteq> []"
  proof -
    from h have c: "calculateFileHash L f (Some n) 0 = (n, Inl StoppedByUser)"
      using stream_loop_stopped [of n 0 "chunks f" J h0]
      by (simp add: calculateFileHash_def calculateHashWithFileStream_def)
    then have "snd (calculateFileHash L f (Some n) 0) = Inl StoppedByUser" by simp
    moreover from 1 [OF this]
    have "verifiedFiles (verifyFileChecksum L (Some n) f st) = verifiedFiles st" .
    moreover have "panel (verifyFileChecksum L (Some n) f st) = panel st"
      using c h(6)
      by (simp add: verifyFileChecksum_def Let_def verify_begin_def stopChecksumVerification_def
          aborted_def verify_settle_def try_body_def)
    ultimately show ?thesis by blast
  qed
  from 1 2 show ?thesis by blast
qed

theorem C6_cancel_commits_nothing_witness:
  "calculateFileHash js_only file_c (Some 1) 0 = (1, Inl StoppedByUser)
   \<and> verifiedFiles (verifyFileChecksum js_only (Some 1) file_c (idle manifest_c)) = {}
   \<and> verifiedFiles (verifyFileChecksum js_only None file_c (idle manifest_c)) = {''c.iso''}"
proof -
  have c: "calculateFileHash js_only file_c (Some 1) 0 = (1, Inl StoppedByUser)"
    by (simp add: calculateFileHash_def calculateHashWithFileStream_def js_only_def
        stub_hasher_def file_c_def aborted_def)
  have d: "calculateFileHash js_only file_c None 0 = (3, Inr (replicate 64 (CHR ''0'')))"
    by (simp add: calculateFileHash_def calculateHashWithFileStream_def js_only_def
        stub_hasher_def stub_sha_def file_c_def aborted_def)
  have nm: "name file_c = ''c.iso''" by (simp add: file_c_def)
  have v: "verifiedFiles (verifyFileChecksum js_only None file_c (idle manifest_c)) = {''c.iso''}"
    by (simp add: verifyFileChecksum_def Let_def d nm verify_begin_def verify_settle_def
        try_body_def find_match_def by_name_def obj_get_def truthy_def aborted_def idle_def
        manifest_c_def)
  from C6_cancel_commits_nothing [of js_only file_c "Some 1" StoppedByUser "idle manifest_c"
      stub_hasher "[]" 1] c v
  show ?thesis by (simp add: idle_def)
qed

section \<open>A file matched by its digest\<close>

lemma absent_lookup:
  "\<not> own m k \<Longrightarrow> k \<notin> set objectPrototype \<Longrightarrow> obj_get m k = Undefined"
  by (simp add: own_lookup obj_get_def)

text \<open>
  C3, as stated: a file whose name is not in the list and whose digest is that of an
  entry is verified by content, and this is reported distinctly from a match of name and
  digest. It fails in its second half: the file \<open>file_b\<close>, not in the list, and the file
  \<open>file_a\<close>, in the list, have the same content, and the run for the one leaves the
  module, result panel included, exactly as the run for the other does.
\<close>

theorem C3_same_report_counterexample:
  "\<not> own manifest_a (name file_b)
   \<and> obj_get manifest_a (name file_b) = Undefined
   \<and> own manifest_a (name file_a)
   \<and> snd (calculateFileHash stub_libs file_b None 0) = Inr empty_digest
   \<and> obj_get manifest_a (name file_a) = Str empty_digest
   \<and> panel (verifyFileChecksum stub_libs None file_b (idle manifest_a))
       = Some (ChecksumVerified ''a.iso'' ''SHA-256'' empty_digest)
   \<and> verifyFileChecksum stub_libs None file_b (idle manifest_a)
       = verifyFileChecksum stub_libs None file_a (idle manifest_a)"
proof -
  have ca: "calculateFileHash stub_libs file_a None 0 = (2, Inr empty_digest)"
    by (simp add: calculateFileHash_def calculateHashWASM_def wasm_try_def stub_libs_def
        stub_hasher_def stub_sha_def file_a_def)
  have cb: "calculateFileHash stub_libs file_b None 0 = (2, Inr empty_digest)"
    by (simp add: calculateFileHash_def calculateHashWASM_def wasm_try_def stub_libs_def
        stub_hasher_def stub_sha_def file_b_def)
  have na: "name file_a = ''a.iso''" and nb: "name file_b = ''b.iso''"
    by (simp_all add: file_a_def file_b_def)
  have ra: "verifyFileChecksum stub_libs None file_a (idle manifest_a)
      = (idle manifest_a)\<lparr>verifiedFiles := {''a.iso''},
           panel := Some (ChecksumVerified ''a.iso'' ''SHA-256'' empty_digest)\<rparr>"
    by (simp add: verifyFileChecksum_def Let_def ca na verify_begin_def verify_settle_def
        try_body_def find_match_def by_name_def by_hash_def obj_get_def truthy_def
        objectPrototype_def aborted_def idle_def manifest_a_def getHashAlgorithm_def
        empty_digest_def)
  have rb: "verifyFileChecksum stub_libs None file_b (idle manifest_a)
      = (idle manifest_a)\<lparr>verifiedFiles := {''a.iso''},
           panel := Some (ChecksumVerified ''a.iso'' ''SHA-256'' empty_digest)\<rparr>"
    by (simp add: verifyFileChecksum_def Let_def cb nb verify_begin_def verify_settle_def
        try_body_def find_match_def by_name_def by_hash_def obj_get_def truthy_def
        objectPrototype_def aborted_def idle_def manifest_a_def getHashAlgorithm_def
        empty_digest_def)
  show ?thesis
    by (simp add: ra rb cb)
      (simp add: na nb own_def obj_get_def objectPrototype_def manifest_a_def)
qed

text \<open>
  A file whose name is that of a member every object inherits, not in the list either:
  the value read under its name is the member, which is truthy and no string, and the
  panel is CHECKSUM MISMATCH although the digest is that of an entry.
\<close>

lemma inherited_member_read:
  "\<not> own manifest_a ''constructor''
   \<and> try_body manifest_a \<lparr>name = ''constructor'', chunks = [], has_stream = True\<rparr>
       (Inr empty_digest)
       = Inr (ChecksumMismatch Member empty_digest)"
  by (simp add: try_body_def find_match_def by_name_def obj_get_def truthy_def
      objectPrototype_def own_def manifest_a_def)

text \<open>
  C3, amended: for a file whose name is not in the list, and is not the name of a member
  every object inherits, and whose digest is that of an entry, the first such entry
  having a name that is not empty, the content of the result panel is made CHECKSUM
  VERIFIED with that entry's name as the expected filename (the panel itself stays hidden,
  as the start of the run left it) and the name is added to \<^verbatim>\<open>verifiedFiles\<close>; the
  module is left as a file of that name with that digest would leave it, so nothing tells
  the two outcomes apart.
\<close>

theorem C3_match_by_content:
  assumes absent: "\<not> own (parsedChecksums st) (name f)"
    and plain: "name f \<notin> set objectPrototype"
    and hash: "calculateFileHash L f stopAt 0 = (t, Inr d)"
    and first: "find (\<lambda>(filename, hash). hash = d) (parsedChecksums st) = Some (k, h)"
    and named: "k \<noteq> []"
  shows "panel (verifyFileChecksum L stopAt f st) = Some (ChecksumVerified k (getHashAlgorithm d) d)
       \<and> panelVisible (verifyFileChecksum L stopAt f st) = False
       \<and> verifiedFiles (verifyFileChecksum L stopAt f st) = insert k (verifiedFiles st)
       \<and> (\<forall>g stopAt' t'. name g = k \<and> obj_get (parsedChecksums st) k = Str d \<and> d \<noteq> []
              \<and> calculateFileHash L g stopAt' 0 = (t', Inr d)
            \<longrightarrow> verifyFileChecksum L stopAt' g st = verifyFileChecksum L stopAt f st)"
proof -
  from first have ne: "parsedChecksums st \<noteq> []" by auto
  from first have hd: "h = d" by (auto simp: find_Some_iff)
  have fm: "find_match (parsedChecksums st) f d = Some (k, Str d)"
    using absent_lookup [OF absent plain] first hd
    by (simp add: find_match_def by_name_def by_hash_def truthy_def)
  have tb: "try_body (parsedChecksums st) f (Inr d) = Inr (ChecksumVerified k (getHashAlgorithm d) d)"
    using fm named by (simp add: try_body_def)
  have tbg: "try_body (parsedChecksums st) g (Inr d) = Inr (ChecksumVerified k (getHashAlgorithm d) d)"
    if "name g = k" "obj_get (parsedChecksums st) k = Str d" "d \<noteq> []" for g
    using that named by (simp add: try_body_def find_match_def by_name_def truthy_def)
  have run: "verifyFileChecksum L s g st =
      st\<lparr>currentFile := None, panelVisible := False, isVerifying := False,
         verificationAborted := False,
         verifiedFiles := insert k (verifiedFiles st),
         panel := Some (ChecksumVerified k (getHashAlgorithm d) d)\<rparr>"
    if "calculateFileHash L g s 0 = (t', Inr d)"
      "try_body (parsedChecksums st) g (Inr d) = Inr (ChecksumVerified k (getHashAlgorithm d) d)"
    for g s t'
    using that ne
    by (simp add: verifyFileChecksum_def Let_def verify_begin_def verify_settle_def
        stopChecksumVerification_def)
  from run [OF hash tb] tbg run show ?thesis by simp
qed

theorem C3_match_by_content_witness:
  "panel (verifyFileChecksum stub_libs None file_b (idle manifest_a))
     = Some (ChecksumVerified ''a.iso'' ''SHA-256'' empty_digest)
   \<and> panelVisible (verifyFileChecksum stub_libs None file_b (idle manifest_a)) = False
   \<and> verifiedFiles (verifyFileChecksum stub_libs None file_b (idle manifest_a)) = {''a.iso''}"
proof -
  have a: "\<not> own (parsedChecksums (idle manifest_a)) (name file_b)"
    by (simp add: idle_def manifest_a_def file_b_def own_def)
  have b: "name file_b \<notin> set objectPrototype"
    by (simp add: file_b_def objectPrototype_def)
  have c: "calculateFileHash stub_libs file_b None 0 = (2, Inr empty_digest)"
    by (simp add: calculateFileHash_def calculateHashWASM_def wasm_try_def stub_libs_def
        stub_hasher_def stub_sha_def file_b_def)
  have f: "find (\<lambda>(filename, hash). hash = empty_digest) (parsedChecksums (idle manifest_a))
      = Some (''a.iso'', empty_digest)"
    by (simp add: idle_def manifest_a_def)
  have n: "''a.iso'' \<noteq> []" by simp
  from C3_match_by_content [OF a b c f n] show ?thesis
    by (simp add: idle_def getHashAlgorithm_def empty_digest_def)
qed

section \<open>Cancelling the verification of a detached signature\<close>

lemma drain_none_iff:
  "(drain stopAt t vs c = None) = (\<exists>n. stopAt = Some n \<and> n \<le> t + length vs)"
proof (induction vs arbitrary: t c)
  case Nil
  then show ?case by (cases stopAt) (simp_all add: aborted_def)
next
  case (Cons v vs)
  show ?case
  proof (cases "aborted stopAt t")
    case True
    then show ?thesis by (cases stopAt) (simp_all add: aborted_def)
  next
    case False
    then have "(drain stopAt t (v # vs) c = None)
        = (\<exists>n. stopAt = Some n \<and> n \<le> Suc t + length vs)"
      by (simp add: Cons.IH)
    then show ?thesis by simp
  qed
qed

lemma aborted_mono: "aborted stopAt t \<Longrightarrow> t \<le> t' \<Longrightarrow> aborted stopAt t'"
  by (cases stopAt) (simp_all add: aborted_def)

text \<open>
  C8. The loop that consumes the data reads the flag before every read, the one that
  finds the stream at its end included: it returns exactly when Stop is pressed no
  later than that last read. In a run that reaches the loop and in which Stop is so
  pressed, \<^verbatim>\<open>verifySignature\<close> returns from the loop and shows nothing: no invalid
  signature, no error. And in any run in which the flag is set from the start, neither
  an invalid signature nor an error is shown.
\<close>

theorem C8_drain_cancel:
  "((drain stopAt 0 vs c = None) = (\<exists>n. stopAt = Some n \<and> n \<le> length vs))
   \<and> (prepare env \<noteq> None \<and> verify_ok env \<and> result_data env = DataStream vs
        \<and> stopAt = Some n \<and> n \<le> length vs
      \<longrightarrow> verifySignature env stopAt = Cancelled)
   \<and> (aborted stopAt 0
      \<longrightarrow> verifySignature env stopAt \<noteq> Invalid \<and> verifySignature env stopAt \<noteq> ErrorShown)"
proof -
  have 1: "(drain stopAt 0 vs c = None) = (\<exists>n. stopAt = Some n \<and> n \<le> length vs)"
    by (simp add: drain_none_iff)
  have 2: "verifySignature env stopAt = Cancelled"
    if "prepare env \<noteq> None" "verify_ok env" "result_data env = DataStream vs"
      "stopAt = Some n" "n \<le> length vs"
  proof -
    from that(4,5) have "drain stopAt 0 vs 0 = None" by (simp add: drain_none_iff)
    with that(1,2,3) show ?thesis
      by (auto simp: verifySignature_def consume_def)
  qed
  have 3: "verifySignature env stopAt \<noteq> Invalid \<and> verifySignature env stopAt \<noteq> ErrorShown"
    if a: "aborted stopAt 0"
  proof -
    have e: "on_error stopAt t = Suppressed" for t
      using aborted_mono [OF a, of t] by (simp add: on_error_def)
    have s: "aborted stopAt (Suc t)" for t
      using aborted_mono [OF a, of "Suc t"] by simp
    show ?thesis
      by (simp add: verifySignature_def conclude_def e s
          split: option.splits prod.splits)
  qed
  from 1 2 3 show ?thesis by blast
qed

theorem C8_drain_cancel_witness:
  "drain (Some 1) 0 [[0, 97], [98]] 0 = None
   \<and> verifySignature env_stream (Some 1) = Cancelled
   \<and> verifySignature env_stream None = ErrorShown
   \<and> verifySignature (env_stream\<lparr>verify_ok := False\<rparr>) (Some 0) = Suppressed"
proof -
  have p: "prepare env_stream \<noteq> None"
    by (simp add: prepare_def data_mode_def hasNullBytes_def env_stream_def)
  have e: "verifySignature env_stream None = ErrorShown"
    by (simp add: verifySignature_def consume_def conclude_def on_error_def aborted_def
        prepare_def data_mode_def hasNullBytes_def env_stream_def)
  have s: "verifySignature (env_stream\<lparr>verify_ok := False\<rparr>) (Some 0) = Suppressed"
    by (simp add: verifySignature_def on_error_def aborted_def
        prepare_def data_mode_def hasNullBytes_def env_stream_def)
  have a: "aborted (Some 0) 0" by (simp add: aborted_def)
  from C8_drain_cancel [of "Some 1" "[[0, 97], [98]]" 0 env_stream 1] p e s
    C8_drain_cancel [of "Some 0" "[]" 0 "env_stream\<lparr>verify_ok := False\<rparr>" 0] a
  show ?thesis by (simp add: env_stream_def)
qed

end
